theory Spec2Isabelle
  imports Main "HOL-Library.Sublist" "HOL-Library.Multiset" "HOL-Library.AList"
begin

section \<open>Python values\<close>

text \<open>
  A Python \<open>str\<close> is a sequence of Unicode code points, so it is modelled as a list of
  natural numbers, one per code point; \<open>len\<close> is \<open>length\<close>. \<open>U\<close> turns an ASCII
  literal into such a list.
\<close>

type_synonym pystr = "nat list"

definition U :: "string \<Rightarrow> pystr" where
  "U s = map of_char s"

text \<open>
  Slicing, \<open>s[a:b]\<close>, \<open>s[:b]\<close> and \<open>s[a:]\<close>, never raises on integers: a negative
  index counts from the end, and every index is clamped into \<open>0..len(s)\<close>.
\<close>

definition slice_index :: "nat \<Rightarrow> int \<Rightarrow> nat" where
  "slice_index n i = (if i < 0 then nat (max 0 (i + int n)) else min n (nat i))"

definition py_slice :: "'a list \<Rightarrow> int \<Rightarrow> int \<Rightarrow> 'a list" where
  "py_slice s a b =
     (let lo = slice_index (length s) a; hi = slice_index (length s) b
      in take (hi - lo) (drop lo s))"

definition py_slice_to :: "'a list \<Rightarrow> int \<Rightarrow> 'a list" where
  "py_slice_to s b = take (slice_index (length s) b) s"

definition py_slice_from :: "'a list \<Rightarrow> int \<Rightarrow> 'a list" where
  "py_slice_from s a = drop (slice_index (length s) a) s"

text \<open>\<open>s.replace(old, new)\<close> for a one-character \<open>old\<close>.\<close>

definition py_replace :: "nat \<Rightarrow> pystr \<Rightarrow> pystr \<Rightarrow> pystr" where
  "py_replace old new s = concat (map (\<lambda>c. if c = old then new else [c]) s)"

text \<open>
  \<open>str.isspace\<close> for one code point; \<open>s.strip()\<close> removes such code points from both
  ends.
\<close>

definition isspace :: "nat \<Rightarrow> bool" where
  "isspace c =
     ((9 \<le> c \<and> c \<le> 13) \<or> (28 \<le> c \<and> c \<le> 32) \<or> c = 133 \<or> c = 160 \<or> c = 5760
      \<or> (8192 \<le> c \<and> c \<le> 8202) \<or> c = 8232 \<or> c = 8233 \<or> c = 8239 \<or> c = 8287
      \<or> c = 12288)"

definition py_strip :: "pystr \<Rightarrow> pystr" where
  "py_strip s = rev (dropWhile isspace (rev (dropWhile isspace s)))"

text \<open>
  \<open>s.lower()\<close> maps each code point through the Unicode lowercase table. The table
  below is Python's for the blocks Basic Latin, Latin-1 Supplement, Latin Extended-A,
  Latin Extended-B and Latin Extended Additional, which is everything the section
  keywords are written in, and for the four code points outside these blocks whose
  lowercase lies inside them (the Kelvin and Angstrom signs, U+2C7E and U+2C7F); any
  other code point is left as it is. The one code point with a two-point lowercase is
  U+0130. A code point the table leaves out has its lowercase outside these blocks, as
  has the capital sigma, whose lowercase Python chooses by its position in the word; so
  each \<open>startswith\<close> test of the parser against a keyword of \<open>section_map\<close> has
  the outcome it has in Python, for every line.
\<close>

definition lower_irregular :: "(nat \<times> nat) list" where
  "lower_irregular = [
    (376, 255), (385, 595), (386, 387), (388, 389), (390, 596), (391, 392), (393, 598),
    (394, 599), (395, 396), (398, 477), (399, 601), (400, 603), (401, 402), (403, 608),
    (404, 611), (406, 617), (407, 616), (408, 409), (412, 623), (413, 626), (415, 629),
    (416, 417), (418, 419), (420, 421), (422, 640), (423, 424), (425, 643), (428, 429),
    (430, 648), (431, 432), (433, 650), (434, 651), (435, 436), (437, 438), (439, 658),
    (440, 441), (444, 445), (452, 454), (453, 454), (455, 457), (456, 457), (458, 460),
    (459, 460), (497, 499), (498, 499), (500, 501), (502, 405), (503, 447), (544, 414),
    (570, 11365), (571, 572), (573, 410), (574, 11366), (577, 578), (579, 384), (580, 649),
    (581, 652), (7838, 223), (8490, 107), (8491, 229), (11390, 575), (11391, 576)]"

definition lower_cp :: "nat \<Rightarrow> pystr" where
  "lower_cp c =
     (if c < 192 then (if 65 \<le> c \<and> c \<le> 90 then [c + 32] else [c])
      else if c \<le> 222 \<and> c \<noteq> 215 then [c + 32]
      else if c = 304 then [105, 775]
      else if even c \<and> ((256 \<le> c \<and> c \<le> 311) \<or> (330 \<le> c \<and> c \<le> 375) \<or> (478 \<le> c \<and> c \<le> 495)
                      \<or> (504 \<le> c \<and> c \<le> 543) \<or> (546 \<le> c \<and> c \<le> 563) \<or> (582 \<le> c \<and> c \<le> 591)
                      \<or> (7680 \<le> c \<and> c \<le> 7829) \<or> (7840 \<le> c \<and> c \<le> 7935)) then [c + 1]
      else if odd c \<and> ((313 \<le> c \<and> c \<le> 328) \<or> (377 \<le> c \<and> c \<le> 382) \<or> (461 \<le> c \<and> c \<le> 476))
        then [c + 1]
      else (case map_of lower_irregular c of Some d \<Rightarrow> [d] | None \<Rightarrow> [c]))"

definition str_lower :: "pystr \<Rightarrow> pystr" where
  "str_lower s = concat (map lower_cp s)"

text \<open>\<open>s.split(sep)\<close> for a one-character separator: never empty.\<close>

fun py_split :: "nat \<Rightarrow> pystr \<Rightarrow> pystr list" where
  "py_split sep [] = [[]]"
| "py_split sep (c # cs) =
     (let r = py_split sep cs in if c = sep then [] # r else (c # hd r) # tl r)"

text \<open>\<open>s.split(sep, 1)\<close>: one piece, or the two pieces around the first separator.\<close>

definition split_once :: "nat \<Rightarrow> pystr \<Rightarrow> pystr list" where
  "split_once sep s =
     (if sep \<in> set s
      then [takeWhile (\<lambda>c. c \<noteq> sep) s, tl (dropWhile (\<lambda>c. c \<noteq> sep) s)]
      else [s])"

text \<open>The exceptions the modelled code can raise; each is a subclass of \<open>Exception\<close>.\<close>

datatype py_exn =
    KeyError | IndexError | TypeError | AttributeError
  | ConnectionError | Timeout | HTTPError | JSONDecodeError

definition and_then :: "py_exn + 'a \<Rightarrow> ('a \<Rightarrow> py_exn + 'b) \<Rightarrow> py_exn + 'b" where
  "and_then r f = (case r of Inl e \<Rightarrow> Inl e | Inr x \<Rightarrow> f x)"

text \<open>\<open>xs[i]\<close> for a non-negative \<open>i\<close>.\<close>

definition item :: "'a list \<Rightarrow> nat \<Rightarrow> py_exn + 'a" where
  "item xs i = (if i < length xs then Inr (xs ! i) else Inl IndexError)"

text \<open>
  The value \<open>response.json()\<close> returns. An object is a dictionary, its keys
  distinct. A float carries the text of its literal: the code below never computes
  with one, it only fails on it.
\<close>

datatype json =
    JNull
  | JBool bool
  | JInt int
  | JFloat pystr
  | JStr pystr
  | JArr "json list"
  | JObj "(pystr \<times> json) list"

section \<open>Error records\<close>

text \<open>
  The dictionary \<open>check_text\<close> builds for one match, with its four keys. \<open>offset\<close> and
  \<open>length\<close> are Python integers (a JSON boolean is the integer 0 or 1 to every
  operation the code applies to it).
\<close>

record grammar_error =
  offset :: int
  length_e :: int
  replacements :: "json list"
  bad_word :: pystr

section \<open>The highlighter: \<open>render_simple_highlight\<close>\<close>

definition span_open :: pystr where
  "span_open = U ''<span class='' @ [34] @ U ''grammar-error'' @ [34] @ U ''>''"

definition span_close :: pystr where
  "span_close = U ''</span>''"

definition br :: pystr where
  "br = U ''<br>''"

text \<open>
  \<open>errors.sort(key=lambda x: x["offset"], reverse=True)\<close>: a stable sort, descending in
  the key; records of equal offset keep the order they had. (CPython reverses the list,
  sorts it ascending and stably, and reverses it again.)
\<close>

definition sort_reverse :: "grammar_error list \<Rightarrow> grammar_error list" where
  "sort_reverse errors = rev (sort_key offset (rev errors))"

text \<open>One pass of the loop body: wrap \<open>highlighted_text[start:end]\<close> in the span.\<close>

definition highlight_step :: "pystr \<Rightarrow> grammar_error \<Rightarrow> pystr" where
  "highlight_step highlighted_text err =
     (let start = offset err;
          stop = start + length_e err;
          bad_segment = py_slice highlighted_text start stop;
          replacement = span_open @ bad_segment @ span_close
      in py_slice_to highlighted_text start @ replacement @ py_slice_from highlighted_text stop)"

text \<open>
  The function returns the string it builds; the second component is the caller's list
  \<open>errors\<close> as the call leaves it, since \<open>list.sort\<close> sorts in place.
\<close>

definition render_simple_highlight :: "pystr \<Rightarrow> grammar_error list \<Rightarrow> pystr \<times> grammar_error list" where
  "render_simple_highlight text errors =
     (if errors = [] then (text, errors)
      else let sorted_errors = sort_reverse errors
           in (py_replace 10 br (foldl highlight_step text sorted_errors), sorted_errors))"

definition highlighted :: "pystr \<Rightarrow> grammar_error list \<Rightarrow> pystr" where
  "highlighted text errors = fst (render_simple_highlight text errors)"

definition errors_after :: "pystr \<Rightarrow> grammar_error list \<Rightarrow> grammar_error list" where
  "errors_after text errors = snd (render_simple_highlight text errors)"

definition span :: "int \<Rightarrow> int \<Rightarrow> grammar_error" where
  "span off len = \<lparr>offset = off, length_e = len, replacements = [], bad_word = []\<rparr>"

subsection \<open>What the highlighter's output is made of\<close>

text \<open>
  The reference the claims about the output are stated against: the output as a
  sequence of segments, a plain piece of the text or a piece wrapped in the span.
  Rendering a segment writes the wrapper, erasing it leaves the wrapped text only.
  \<open>segments\<close> cuts a text at spans given in descending order of offset.
\<close>

datatype seg = Plain pystr | Marked pystr

fun render_seg :: "seg \<Rightarrow> pystr" where
  "render_seg (Plain s) = s"
| "render_seg (Marked s) = span_open @ s @ span_close"

fun erase_seg :: "seg \<Rightarrow> pystr" where
  "erase_seg (Plain s) = s"
| "erase_seg (Marked s) = s"

fun map_seg :: "(pystr \<Rightarrow> pystr) \<Rightarrow> seg \<Rightarrow> seg" where
  "map_seg f (Plain s) = Plain (f s)"
| "map_seg f (Marked s) = Marked (f s)"

fun marked_pieces :: "seg list \<Rightarrow> pystr list" where
  "marked_pieces [] = []"
| "marked_pieces (Plain s # gs) = marked_pieces gs"
| "marked_pieces (Marked s # gs) = s # marked_pieces gs"

fun segments :: "pystr \<Rightarrow> grammar_error list \<Rightarrow> seg list" where
  "segments t [] = [Plain t]"
| "segments t (e # es) =
     segments (take (nat (offset e)) t) es
     @ [Marked (take (nat (length_e e)) (drop (nat (offset e)) t)),
        Plain (drop (nat (offset e) + nat (length_e e)) t)]"

definition converted_segments :: "pystr \<Rightarrow> grammar_error list \<Rightarrow> seg list" where
  "converted_segments text errors =
     map (map_seg (py_replace 10 br)) (segments text (sort_reverse errors))"

text \<open>
  Spans as the data model has them (offset not negative, length positive), within the
  text, and no two of the sequence overlapping.
\<close>

definition disjoint_spans :: "grammar_error \<Rightarrow> grammar_error \<Rightarrow> bool" where
  "disjoint_spans a b =
     (offset a + length_e a \<le> offset b \<or> offset b + length_e b \<le> offset a)"

definition spans_ok :: "pystr \<Rightarrow> grammar_error list \<Rightarrow> bool" where
  "spans_ok text errors =
     ((\<forall>e \<in> set errors. 0 \<le> offset e \<and> 0 < length_e e \<and> offset e + length_e e \<le> int (length text))
      \<and> (\<forall>i < length errors. \<forall>j < length errors. i \<noteq> j \<longrightarrow> disjoint_spans (errors ! i) (errors ! j)))"

text \<open>A descending chain: each span ends where the one before it in the list starts, or earlier.\<close>

fun desc_chain :: "nat \<Rightarrow> grammar_error list \<Rightarrow> bool" where
  "desc_chain n [] = True"
| "desc_chain n (e # es) =
     (0 \<le> offset e \<and> 0 \<le> length_e e \<and> offset e + length_e e \<le> int n \<and> desc_chain (nat (offset e)) es)"

section \<open>The grammar client: \<open>SimpleLanguageToolChecker.check_text\<close>\<close>

text \<open>
  What the \<open>requests\<close> library hands back: \<open>requests.post\<close> raises on a network
  failure or after the timeout, or returns a response with a status code and a body;
  the body is \<open>None\<close> when it is not JSON, so that \<open>response.json()\<close> raises.
  \<open>raise_for_status\<close> raises \<open>HTTPError\<close> for a status from 400 to 599 and returns
  for every other status.
\<close>

datatype http_outcome =
    NetworkFailure
  | TimedOut
  | Response nat "json option"

definition post :: "http_outcome \<Rightarrow> py_exn + (nat \<times> json option)" where
  "post outcome =
     (case outcome of
        NetworkFailure \<Rightarrow> Inl ConnectionError
      | TimedOut \<Rightarrow> Inl Timeout
      | Response status body \<Rightarrow> Inr (status, body))"

definition raise_for_status :: "nat \<Rightarrow> py_exn + unit" where
  "raise_for_status status = (if 400 \<le> status \<and> status < 600 then Inl HTTPError else Inr ())"

definition response_json :: "json option \<Rightarrow> py_exn + json" where
  "response_json body = (case body of None \<Rightarrow> Inl JSONDecodeError | Some v \<Rightarrow> Inr v)"

text \<open>\<open>d.get(key, default)\<close>: only a dictionary has the method.\<close>

fun py_get :: "json \<Rightarrow> pystr \<Rightarrow> json \<Rightarrow> py_exn + json" where
  "py_get (JObj kvs) key dflt = Inr (case map_of kvs key of Some v \<Rightarrow> v | None \<Rightarrow> dflt)"
| "py_get _ key dflt = Inl AttributeError"

text \<open>\<open>d[key]\<close> with a string key.\<close>

fun py_getitem :: "json \<Rightarrow> pystr \<Rightarrow> py_exn + json" where
  "py_getitem (JObj kvs) key = (case map_of kvs key of Some v \<Rightarrow> Inr v | None \<Rightarrow> Inl KeyError)"
| "py_getitem _ key = Inl TypeError"

text \<open>
  The elements a \<open>for\<close> loop visits: those of a list, the keys of a dictionary, the
  characters of a string; nothing else is iterable.
\<close>

fun py_iter :: "json \<Rightarrow> py_exn + json list" where
  "py_iter (JArr xs) = Inr xs"
| "py_iter (JObj kvs) = Inr (map (\<lambda>kv. JStr (fst kv)) kvs)"
| "py_iter (JStr s) = Inr (map (\<lambda>c. JStr [c]) s)"
| "py_iter _ = Inl TypeError"

text \<open>A list comprehension or loop over a body that may raise stops at the first raise.\<close>

fun map_exn :: "('a \<Rightarrow> py_exn + 'b) \<Rightarrow> 'a list \<Rightarrow> py_exn + 'b list" where
  "map_exn f [] = Inr []"
| "map_exn f (x # xs) =
     and_then (f x) (\<lambda>y. and_then (map_exn f xs) (\<lambda>ys. Inr (y # ys)))"

text \<open>The values Python accepts as an integer: \<open>int\<close>, and \<open>bool\<close> as 0 or 1.\<close>

fun as_int :: "json \<Rightarrow> int option" where
  "as_int (JInt i) = Some i"
| "as_int (JBool b) = Some (if b then 1 else 0)"
| "as_int _ = None"

text \<open>
  \<open>text[off : off + len]\<close> on two JSON values: unless both are integers, either the
  addition or the slice raises \<open>TypeError\<close>.
\<close>

definition slice_text :: "pystr \<Rightarrow> json \<Rightarrow> json \<Rightarrow> py_exn + pystr" where
  "slice_text text off len =
     (case (as_int off, as_int len) of
        (Some a, Some b) \<Rightarrow> Inr (py_slice text a (a + b))
      | _ \<Rightarrow> Inl TypeError)"

text \<open>The body of the loop over \<open>matches\<close>: the record appended for one match.\<close>

definition error_of_match :: "pystr \<Rightarrow> json \<Rightarrow> py_exn + grammar_error" where
  "error_of_match text match =
     and_then (py_get match (U ''replacements'') (JArr [])) (\<lambda>rs.
     and_then (py_iter rs) (\<lambda>rs.
     and_then (map_exn (\<lambda>r. py_getitem r (U ''value'')) rs) (\<lambda>vals.
     let replacements = take 3 vals in
     and_then (py_getitem match (U ''offset'')) (\<lambda>off.
     and_then (py_getitem match (U ''length'')) (\<lambda>len.
     and_then (slice_text text off len) (\<lambda>bad.
       Inr \<lparr>offset = the (as_int off), length_e = the (as_int len),
            replacements = replacements, bad_word = bad\<rparr>))))))"

text \<open>The body of the \<open>try\<close> block.\<close>

definition check_text_try :: "pystr \<Rightarrow> http_outcome \<Rightarrow> py_exn + grammar_error list" where
  "check_text_try text outcome =
     and_then (post outcome) (\<lambda>(status, body).
     and_then (raise_for_status status) (\<lambda>_.
     and_then (response_json body) (\<lambda>result.
     and_then (py_get result (U ''matches'') (JArr [])) (\<lambda>ms.
     and_then (py_iter ms) (\<lambda>ms.
       map_exn (error_of_match text) ms)))))"

text \<open>
  \<open>except Exception: return []\<close>. Every exception of the model is an instance of
  \<open>Exception\<close>, so the handler takes it; the function still has the type of code that
  may raise, so that its never raising is a statement about it.
\<close>

definition check_text :: "pystr \<Rightarrow> http_outcome \<Rightarrow> py_exn + grammar_error list" where
  "check_text text outcome =
     (case check_text_try text outcome of Inl e \<Rightarrow> Inr [] | Inr errors \<Rightarrow> Inr errors)"

section \<open>The response parser (the parsing logic of \<open>main\<close>)\<close>

text \<open>
  \<open>section_map\<close> is a dictionary literal; a dictionary iterates in insertion order, so
  it is a list of pairs with distinct keys. \<open>parsed_data\<close> is a dictionary of strings.
\<close>

type_synonym sections = "(pystr \<times> pystr list) list"
type_synonym parsed = "(pystr \<times> pystr) list"

definition section_map :: sections where
  "section_map = [
    (U ''Task Response'',
       [U ''Task Response'', [80, 104, 7843, 110, 32, 104, 7891, 105, 32, 121, 234, 117, 32, 99, 7847, 117]]),
    (U ''Information Accuracy'',
       [U ''Information Accuracy'',
        [272, 7897, 32, 99, 104, 237, 110, 104, 32, 120, 225, 99, 32, 116, 104, 244, 110, 103, 32, 116, 105, 110]]),
    (U ''Idea Development'',
       [U ''Idea Development'',
        [80, 104, 225, 116, 32, 116, 114, 105, 7875, 110, 32, 253, 32, 116, 432, 7903, 110, 103]]),
    (U ''Coherence'',
       [U ''Coherence'', [83, 7921, 32, 109, 7841, 99, 104, 32, 108, 7841, 99]]),
    (U ''Summary'',
       [U ''Summary'', [75, 7871, 116, 32, 108, 117, 7853, 110]]),
    (U ''Final Evaluation'',
       [U ''Final Evaluation'',
        [272, 225, 110, 104, 32, 103, 105, 225, 32, 116, 7893, 110, 103, 32, 113, 117, 97, 110]]),
    (U ''AI Plagiarism'',
       [U ''AI Plagiarism'', [80, 104, 225, 116, 32, 104, 105, 7879, 110, 32, 65, 73]])]"

record parser_state =
  parsed_data :: parsed
  current_section :: "pystr option"

text \<open>\<open>parsed_data[key] += s\<close>: reading a missing key raises.\<close>

definition dict_append :: "parsed \<Rightarrow> pystr \<Rightarrow> pystr \<Rightarrow> py_exn + parsed" where
  "dict_append d key s =
     (case map_of d key of
        None \<Rightarrow> Inl KeyError
      | Some v \<Rightarrow> Inr (AList.update key (v @ s) d))"

text \<open>
  \<open>clean_line.replace('*', '').replace('-', '').replace('#', '').strip().lower()\<close>
\<close>

definition norm_line :: "pystr \<Rightarrow> pystr" where
  "norm_line clean_line =
     str_lower (py_strip (py_replace 35 [] (py_replace 45 [] (py_replace 42 [] clean_line))))"

text \<open>
  The body of \<open>if norm_line.startswith(kw.lower())\<close>: the section becomes current, and
  what follows the first colon of the line, if anything, is appended to it.
\<close>

definition open_section :: "pystr \<Rightarrow> pystr \<Rightarrow> parser_state \<Rightarrow> py_exn + parser_state" where
  "open_section clean_line section_key st =
     (let st1 = st\<lparr>current_section := Some section_key\<rparr>
      in if 58 \<in> set clean_line
         then and_then (item (split_once 58 clean_line) 1) (\<lambda>part.
                let content_part = py_strip part
                in if content_part \<noteq> []
                   then and_then (dict_append (parsed_data st1) section_key (content_part @ [32]))
                          (\<lambda>d. Inr (st1\<lparr>parsed_data := d\<rparr>))
                   else Inr st1)
         else Inr st1)"

text \<open>
  The loop over the keywords of one section, and the loop over the sections; each
  returns the state and \<open>is_new_section\<close>, and stops at the first keyword that matches.
\<close>

fun scan_keywords ::
  "pystr \<Rightarrow> pystr \<Rightarrow> pystr list \<Rightarrow> parser_state \<Rightarrow> py_exn + (parser_state \<times> bool)" where
  "scan_keywords clean_line section_key [] st = Inr (st, False)"
| "scan_keywords clean_line section_key (kw # kws) st =
     (if prefix (str_lower kw) (norm_line clean_line)
      then and_then (open_section clean_line section_key st) (\<lambda>st'. Inr (st', True))
      else scan_keywords clean_line section_key kws st)"

fun scan_sections ::
  "sections \<Rightarrow> pystr \<Rightarrow> parser_state \<Rightarrow> py_exn + (parser_state \<times> bool)" where
  "scan_sections [] clean_line st = Inr (st, False)"
| "scan_sections ((section_key, keywords) # rest) clean_line st =
     and_then (scan_keywords clean_line section_key keywords st) (\<lambda>(st', is_new_section).
       if is_new_section then Inr (st', True) else scan_sections rest clean_line st')"

text \<open>
  The body of the loop over the lines. \<open>if ... and current_section\<close> is false for
  \<open>None\<close> and for the empty string.
\<close>

definition parse_line :: "sections \<Rightarrow> parser_state \<Rightarrow> pystr \<Rightarrow> py_exn + parser_state" where
  "parse_line smap st line =
     (let clean_line = py_strip line
      in if clean_line = [] then Inr st
         else and_then (scan_sections smap clean_line st) (\<lambda>(st', is_new_section).
                if \<not> is_new_section \<and> current_section st' \<noteq> None \<and> current_section st' \<noteq> Some []
                then and_then (dict_append (parsed_data st') (the (current_section st')) (clean_line @ [32]))
                       (\<lambda>d. Inr (st'\<lparr>parsed_data := d\<rparr>))
                else Inr st'))"

fun parse_lines :: "sections \<Rightarrow> parser_state \<Rightarrow> pystr list \<Rightarrow> py_exn + parser_state" where
  "parse_lines smap st [] = Inr st"
| "parse_lines smap st (line # lines) =
     and_then (parse_line smap st line) (\<lambda>st'. parse_lines smap st' lines)"

definition initial_state :: "sections \<Rightarrow> parser_state" where
  "initial_state smap = \<lparr>parsed_data = map (\<lambda>kv. (fst kv, [])) smap, current_section = None\<rparr>"

definition parse :: "sections \<Rightarrow> pystr \<Rightarrow> py_exn + parsed" where
  "parse smap llm_response_text =
     and_then (parse_lines smap (initial_state smap) (py_split 10 llm_response_text))
       (\<lambda>st. Inr (parsed_data st))"

subsection \<open>What the parser's claims are stated against\<close>

text \<open>
  The section a normalized line opens, said in the words of the specification: the
  first section key, in the order of the map, one of whose keywords, lower-cased, is a
  prefix of the normalized line.
\<close>

definition first_section :: "sections \<Rightarrow> pystr \<Rightarrow> pystr option" where
  "first_section smap norm =
     map_option fst (find (\<lambda>kv. \<exists>kw \<in> set (snd kv). prefix (str_lower kw) norm) smap)"

text \<open>The keys of the section map, in its order.\<close>

definition section_keys :: "pystr list" where
  "section_keys = map fst section_map"

text \<open>
  Rendering a parsed map back to text as the specification words it: one line
  \<open>Key: value\<close> for each section, in the order of the map, the lines joined by
  newlines. \<open>py_join\<close> is \<open>sep.join(xs)\<close>.
\<close>

fun py_join :: "pystr \<Rightarrow> pystr list \<Rightarrow> pystr" where
  "py_join sep [] = []"
| "py_join sep [x] = x"
| "py_join sep (x # y # zs) = x @ sep @ py_join sep (y # zs)"

definition render_line :: "pystr \<times> pystr \<Rightarrow> pystr" where
  "render_line kv = fst kv @ [58, 32] @ snd kv"

definition render_kv :: "parsed \<Rightarrow> pystr" where
  "render_kv d = py_join [10] (map render_line d)"

text \<open>
  Auxiliary notions of the proofs: \<open>rstrip\<close> strips the right end only, \<open>unmarked\<close>
  is the chain of three \<open>replace\<close> calls of \<open>norm_line\<close>; \<open>value_ok\<close> is the shape
  of every accumulated content (empty, or pieces without newline that neither start
  nor end with white space, each followed by one space), \<open>state_ok\<close> the invariant of
  the loop over the lines.
\<close>

definition rstrip :: "pystr \<Rightarrow> pystr" where
  "rstrip s = rev (dropWhile isspace (rev s))"

definition unmarked :: "pystr \<Rightarrow> pystr" where
  "unmarked s = py_replace 35 [] (py_replace 45 [] (py_replace 42 [] s))"

definition value_ok :: "pystr \<Rightarrow> bool" where
  "value_ok v =
     (v = [] \<or> (\<exists>c. v = c @ [32] \<and> c \<noteq> [] \<and> \<not> isspace (hd c) \<and> \<not> isspace (last c) \<and> 10 \<notin> set c))"

definition state_ok :: "sections \<Rightarrow> parser_state \<Rightarrow> bool" where
  "state_ok smap st =
     (map fst (parsed_data st) = map fst smap
      \<and> (\<forall>kv \<in> set (parsed_data st). value_ok (snd kv))
      \<and> (\<forall>k. current_section st = Some k \<longrightarrow> k \<in> fst ` set smap))"

section \<open>Properties of the highlighter\<close>

lemma U_simps: "U [] = []" "U (c # cs) = of_char c # U cs"
  by (simp_all add: U_def)

lemma filter_key_singleton:
  "distinct (map f xs) \<Longrightarrow> k \<in> set xs \<Longrightarrow> filter (\<lambda>x. f k = f x) xs = [k]"
proof (induction xs)
  case Nil
  then show ?case by simp
next
  case (Cons x xs)
  show ?case
  proof (cases "k = x")
    case True
    have "filter (\<lambda>y. f x = f y) xs = []"
      using Cons.prems(1) by (auto simp: filter_empty_conv)
    with True show ?thesis by simp
  next
    case False
    with Cons.prems have k: "k \<in> set xs" and "f x \<noteq> f k" by auto
    with Cons.IH Cons.prems(1) show ?thesis by simp
  qed
qed

lemma sort_key_distinct_unique:
  assumes "mset xs = mset ys" and "distinct (map f xs)"
  shows "sort_key f xs = sort_key f ys"
proof -
  have dy: "distinct (map f ys)"
  proof -
    have "mset (map f xs) = mset (map f ys)" using assms(1) by (metis mset_map)
    then show ?thesis using assms(2) by (metis mset_eq_imp_distinct_iff)
  qed
  have sets: "set xs = set ys" using assms(1) by (rule mset_eq_setD)
  show ?thesis
  proof (rule properties_for_sort_key)
    show "mset (sort_key f ys) = mset xs" using assms(1) by simp
    show "sorted (map f (sort_key f ys))" by simp
    fix k assume "k \<in> set (sort_key f ys)"
    then have ky: "k \<in> set ys" by simp
    then have kx: "k \<in> set xs" using sets by simp
    have "filter (\<lambda>x. f k = f x) (sort_key f ys) = [k]"
      by (rule filter_key_singleton) (use dy ky in \<open>simp_all add: distinct_map\<close>)
    moreover have "filter (\<lambda>x. f k = f x) xs = [k]"
      using assms(2) kx by (rule filter_key_singleton)
    ultimately show "filter (\<lambda>x. f k = f x) (sort_key f ys) = filter (\<lambda>x. f k = f x) xs"
      by simp
  qed
qed

lemma sort_reverse_unique:
  assumes "mset es = mset es'" and "distinct (map offset es)"
  shows "sort_reverse es = sort_reverse es'"
proof -
  have "mset (rev es) = mset (rev es')" using assms(1) by simp
  moreover have "distinct (map offset (rev es))" using assms(2) by (simp add: rev_map [symmetric])
  ultimately have "sort_key offset (rev es) = sort_key offset (rev es')"
    by (rule sort_key_distinct_unique)
  then show ?thesis by (simp add: sort_reverse_def)
qed

lemma mset_sort_reverse: "mset (sort_reverse es) = mset es"
  by (simp add: sort_reverse_def)

lemma sorted_sort_reverse:
  "sorted_wrt (\<lambda>a b. offset b \<le> offset a) (sort_reverse es)"
proof -
  have "sorted (map offset (sort_key offset (rev es)))" by simp
  then have "sorted_wrt (\<lambda>a b. offset a \<le> offset b) (sort_key offset (rev es))"
    by (simp add: sorted_map)
  then show ?thesis by (simp add: sort_reverse_def sorted_wrt_rev)
qed

lemma sort_reverse_id:
  assumes "sorted_wrt (\<lambda>a b. offset b \<le> offset a) es"
  shows "sort_reverse es = es"
proof -
  have "sorted_wrt (\<lambda>a b. offset a \<le> offset b) (rev es)"
    using assms by (simp add: sorted_wrt_rev)
  then have "sorted (map offset (rev es))" by (simp add: sorted_map)
  then have "sort_key offset (rev es) = rev es" by (rule sort_key_id_if_sorted)
  then show ?thesis by (simp add: sort_reverse_def)
qed

lemma py_replace_append:
  "py_replace c new (a @ b) = py_replace c new a @ py_replace c new b"
  by (simp add: py_replace_def)

lemma length_py_replace_br: "length (py_replace 10 br s) = length s + 3 * count_list s 10"
  by (induction s) (simp_all add: py_replace_def br_def U_simps)

lemma py_replace_br_id_iff: "(py_replace 10 br s = s) = (10 \<notin> set s)"
proof
  assume "py_replace 10 br s = s"
  then have "length (py_replace 10 br s) = length s" by simp
  then have "count_list s 10 = 0" by (simp add: length_py_replace_br)
  then show "10 \<notin> set s" by (simp add: count_list_0_iff)
next
  assume "10 \<notin> set s"
  then show "py_replace 10 br s = s" by (induction s) (auto simp: py_replace_def)
qed

lemma highlighted_nonempty:
  "errors \<noteq> [] \<Longrightarrow>
   highlighted text errors = py_replace 10 br (foldl highlight_step text (sort_reverse errors))"
  by (simp add: highlighted_def render_simple_highlight_def Let_def)

lemma errors_after_sort: "errors_after text errors = sort_reverse errors"
  by (simp add: errors_after_def render_simple_highlight_def Let_def sort_reverse_def)

text \<open>
  Claim C1, as the code has it: with an empty span sequence the guard \<open>if not errors\<close>
  returns the input text as it is, before the newline conversion is reached. So the
  output is the text itself, and it equals the newline-converted text exactly when the
  text has no newline.
\<close>

theorem highlight_no_spans:
  "highlighted text [] = text
   \<and> ((highlighted text [] = py_replace 10 br text) = (10 \<notin> set text))"
  by (simp add: highlighted_def render_simple_highlight_def py_replace_br_id_iff
      eq_commute [of "text"])

text \<open>
  Claim C1 as stated fails: on the two-line text \<open>a\nb\<close> with no spans the output keeps
  the newline, whereas the newline conversion would give \<open>a<br>b\<close>.
\<close>

theorem highlight_no_spans_keeps_newline:
  "highlighted (U ''a'' @ [10] @ U ''b'') [] \<noteq> py_replace 10 br (U ''a'' @ [10] @ U ''b'')"
  by (simp add: highlighted_def render_simple_highlight_def py_replace_def br_def U_simps)

text \<open>
  Claim C3, as the code has it: the sort key is the offset alone and the sort is stable,
  so the output is the same for every permutation of a span sequence whose offsets are
  pairwise distinct.
\<close>

theorem highlight_permutation_distinct_offsets:
  assumes "mset errors = mset errors'" and "distinct (map offset errors)"
  shows "highlighted text errors = highlighted text errors'"
proof -
  have "sort_reverse errors = sort_reverse errors'" using assms by (rule sort_reverse_unique)
  moreover have "(errors = []) = (errors' = [])" using assms(1) by (metis mset_zero_iff)
  ultimately show ?thesis by (simp add: highlighted_def render_simple_highlight_def)
qed

theorem highlight_permutation_distinct_offsets_witness:
  "mset [span 0 1, span 2 1] = mset [span 2 1, span 0 1]
   \<and> distinct (map offset [span 0 1, span 2 1])
   \<and> highlighted (U ''abcd'') [span 0 1, span 2 1] = highlighted (U ''abcd'') [span 2 1, span 0 1]"
proof -
  have m: "mset [span 0 1, span 2 1] = mset [span 2 1, span 0 1]" by (simp add: span_def)
  have d: "distinct (map offset [span 0 1, span 2 1])" by (simp add: span_def)
  show ?thesis using m d highlight_permutation_distinct_offsets [OF m d] by blast
qed

text \<open>
  Claim C3 as stated fails: two spans of the same offset are processed in the order
  they were given, and on the text \<open>ab\<close> the spans (0,1) and (0,2) give different
  outputs in their two orders.
\<close>

theorem highlight_order_matters:
  "highlighted (U ''ab'') [span 0 1, span 0 2] \<noteq> highlighted (U ''ab'') [span 0 2, span 0 1]"
  by (simp add: highlighted_def render_simple_highlight_def sort_reverse_def span_def
      highlight_step_def py_slice_def py_slice_to_def py_slice_from_def slice_index_def
      span_open_def span_close_def py_replace_def br_def U_simps)

text \<open>
  Claim C9, as the code has it: the text is an immutable string, but \<open>errors.sort\<close>
  sorts the caller's list in place. After the call the list holds the same records in
  descending order of offset, records of equal offset in the order they had; it is what
  it was only if it already was in descending order.
\<close>

theorem highlight_sorts_callers_list:
  "mset (errors_after text errors) = mset errors
   \<and> sorted_wrt (\<lambda>a b. offset b \<le> offset a) (errors_after text errors)
   \<and> filter (\<lambda>e. offset e = k) (errors_after text errors) = filter (\<lambda>e. offset e = k) errors
   \<and> (sorted_wrt (\<lambda>a b. offset b \<le> offset a) errors \<longrightarrow> errors_after text errors = errors)"
proof -
  have st: "filter (\<lambda>e. offset e = k) (sort_reverse errors) = filter (\<lambda>e. offset e = k) errors"
    by (simp add: sort_reverse_def rev_filter [symmetric] sort_key_stable)
  show ?thesis
    using st sorted_sort_reverse [of errors] sort_reverse_id [of errors] mset_sort_reverse [of errors]
    by (simp add: errors_after_sort)
qed

theorem highlight_sorts_callers_list_witness:
  "sorted_wrt (\<lambda>a b. offset b \<le> offset a) [span 1 1, span 0 1]
   \<and> errors_after (U ''ab'') [span 1 1, span 0 1] = [span 1 1, span 0 1]"
  using highlight_sorts_callers_list [of "U ''ab''" "[span 1 1, span 0 1]" 0]
  by (simp add: span_def)

text \<open>
  Claim C9 as stated fails: called with the spans (0,1), (1,1) in this order the
  function leaves the caller's list in the order (1,1), (0,1).
\<close>

theorem highlight_reorders_callers_list:
  "errors_after (U ''ab'') [span 0 1, span 1 1] \<noteq> [span 0 1, span 1 1]"
  by (simp add: errors_after_def render_simple_highlight_def sort_reverse_def span_def)

lemma highlight_step_in_bounds:
  assumes "0 \<le> offset e" "0 \<le> length_e e" "offset e + length_e e \<le> int (length h)"
  shows "highlight_step h e =
     take (nat (offset e)) h @ span_open @ take (nat (length_e e)) (drop (nat (offset e)) h)
       @ span_close @ drop (nat (offset e) + nat (length_e e)) h"
proof -
  have a: "slice_index (length h) (offset e) = nat (offset e)"
    using assms by (simp add: slice_index_def)
  have b: "slice_index (length h) (offset e + length_e e) = nat (offset e) + nat (length_e e)"
    using assms by (simp add: slice_index_def nat_add_distrib)
  show ?thesis
    by (simp add: highlight_step_def Let_def py_slice_def py_slice_to_def py_slice_from_def a b)
qed

lemma highlight_step_append:
  assumes "0 \<le> offset e" "0 \<le> length_e e" "offset e + length_e e \<le> int (length p)"
  shows "highlight_step (p @ s) e = highlight_step p e @ s"
proof -
  have le: "nat (offset e) + nat (length_e e) \<le> length p" using assms by linarith
  have "offset e + length_e e \<le> int (length (p @ s))" using assms by simp
  then show ?thesis
    using le by (simp add: highlight_step_in_bounds assms)
qed

lemma length_highlight_step_ge:
  assumes "0 \<le> offset e" "0 \<le> length_e e" "offset e + length_e e \<le> int (length p)"
  shows "length p \<le> length (highlight_step p e)"
proof -
  have le: "nat (offset e) + nat (length_e e) \<le> length p" using assms by linarith
  then show ?thesis by (simp add: highlight_step_in_bounds assms)
qed

lemma foldl_highlight_append:
  "\<forall>e \<in> set es. 0 \<le> offset e \<and> 0 \<le> length_e e \<and> offset e + length_e e \<le> int (length p)
   \<Longrightarrow> foldl highlight_step (p @ s) es = foldl highlight_step p es @ s"
proof (induction es arbitrary: p)
  case Nil
  then show ?case by simp
next
  case (Cons e es)
  have e: "0 \<le> offset e" "0 \<le> length_e e" "offset e + length_e e \<le> int (length p)"
    using Cons.prems by simp_all
  have ge: "length p \<le> length (highlight_step p e)" using e by (rule length_highlight_step_ge)
  have "\<forall>x \<in> set es. 0 \<le> offset x \<and> 0 \<le> length_e x
          \<and> offset x + length_e x \<le> int (length (highlight_step p e))"
    using Cons.prems ge by fastforce
  then have "foldl highlight_step (highlight_step p e @ s) es
               = foldl highlight_step (highlight_step p e) es @ s"
    by (rule Cons.IH)
  then show ?case by (simp add: highlight_step_append e)
qed

lemma desc_chain_bounds:
  "desc_chain n es \<Longrightarrow> \<forall>e \<in> set es. 0 \<le> offset e \<and> 0 \<le> length_e e \<and> offset e + length_e e \<le> int n"
proof (induction es arbitrary: n)
  case Nil
  then show ?case by simp
next
  case (Cons e es)
  from Cons.prems have "desc_chain (nat (offset e)) es" and "offset e \<le> int n" and "0 \<le> offset e"
    by auto
  with Cons.IH [of "nat (offset e)"] Cons.prems show ?case by fastforce
qed

lemma foldl_highlight_segments:
  "desc_chain (length t) es \<Longrightarrow>
   foldl highlight_step t es = concat (map render_seg (segments t es))"
proof (induction es arbitrary: t)
  case Nil
  then show ?case by simp
next
  case (Cons e es)
  let ?o = "nat (offset e)" and ?l = "nat (length_e e)"
  have e: "0 \<le> offset e" "0 \<le> length_e e" "offset e + length_e e \<le> int (length t)"
    and ch: "desc_chain ?o es"
    using Cons.prems by simp_all
  have len: "length (take ?o t) = ?o" using e by simp
  have b: "\<forall>x \<in> set es. 0 \<le> offset x \<and> 0 \<le> length_e x \<and> offset x + length_e x \<le> int (length (take ?o t))"
    using desc_chain_bounds [OF ch] len by simp
  have step: "highlight_step t e =
      take ?o t @ (span_open @ take ?l (drop ?o t) @ span_close @ drop (?o + ?l) t)"
    using e by (simp add: highlight_step_in_bounds)
  have "foldl highlight_step t (e # es) = foldl highlight_step (highlight_step t e) es" by simp
  also have "\<dots> = foldl highlight_step (take ?o t) es
                  @ (span_open @ take ?l (drop ?o t) @ span_close @ drop (?o + ?l) t)"
    unfolding step using b by (rule foldl_highlight_append)
  also have "foldl highlight_step (take ?o t) es = concat (map render_seg (segments (take ?o t) es))"
    using ch len by (intro Cons.IH) simp
  finally show ?case by simp
qed

lemma erase_segments: "concat (map erase_seg (segments t es)) = t"
proof (induction es arbitrary: t)
  case Nil
  then show ?case by simp
next
  case (Cons e es)
  have "take (nat (length_e e)) (drop (nat (offset e)) t) @ drop (nat (offset e) + nat (length_e e)) t
          = drop (nat (offset e)) t"
    by (metis add.commute append_take_drop_id drop_drop)
  then show ?case using Cons.IH [of "take (nat (offset e)) t"] by simp
qed

lemma length_span_markup: "length span_open + length span_close = 35"
  by (simp add: span_open_def span_close_def U_simps)

lemma length_render_segments:
  "length (concat (map render_seg (segments t es))) = length t + 35 * length es"
proof (induction es arbitrary: t)
  case Nil
  then show ?case by simp
next
  case (Cons e es)
  have "length (take (nat (offset e)) t) + length (take (nat (length_e e)) (drop (nat (offset e)) t))
          + length (drop (nat (offset e) + nat (length_e e)) t) = length t"
    by (simp add: min_def)
  then show ?case
    using Cons.IH [of "take (nat (offset e)) t"] length_span_markup by simp
qed


lemma py_replace_render_seg:
  "py_replace 10 br (render_seg g) = render_seg (map_seg (py_replace 10 br) g)"
proof -
  have o: "py_replace 10 br span_open = span_open"
    by (simp add: py_replace_br_id_iff span_open_def U_simps)
  have c: "py_replace 10 br span_close = span_close"
    by (simp add: py_replace_br_id_iff span_close_def U_simps)
  show ?thesis by (cases g) (simp_all add: py_replace_append o c)
qed

lemma py_replace_concat:
  "py_replace c new (concat xs) = concat (map (py_replace c new) xs)"
  by (induction xs) (simp_all add: py_replace_append py_replace_def)

lemma py_replace_render_segs:
  "py_replace 10 br (concat (map render_seg gs))
     = concat (map render_seg (map (map_seg (py_replace 10 br)) gs))"
  by (simp add: py_replace_concat py_replace_render_seg comp_def)

lemma erase_map_seg: "erase_seg (map_seg f g) = f (erase_seg g)"
  by (cases g) simp_all

lemma erase_replaced_segs:
  "concat (map erase_seg (map (map_seg (py_replace 10 br)) gs))
     = py_replace 10 br (concat (map erase_seg gs))"
  by (simp add: py_replace_concat erase_map_seg comp_def)

lemma spans_ok_distinct:
  assumes "spans_ok t es"
  shows "distinct es"
    and "\<And>a b. a \<in> set es \<Longrightarrow> b \<in> set es \<Longrightarrow> a \<noteq> b \<Longrightarrow> disjoint_spans a b"
proof -
  have pos: "\<And>e. e \<in> set es \<Longrightarrow> 0 < length_e e" using assms by (simp add: spans_ok_def)
  have pw: "\<And>i j. i < length es \<Longrightarrow> j < length es \<Longrightarrow> i \<noteq> j \<Longrightarrow> disjoint_spans (es ! i) (es ! j)"
    using assms by (simp add: spans_ok_def)
  show "distinct es"
    unfolding distinct_conv_nth
  proof (intro allI impI)
    fix i j assume ij: "i < length es" "j < length es" "i \<noteq> j"
    show "es ! i \<noteq> es ! j"
    proof
      assume eq: "es ! i = es ! j"
      have "disjoint_spans (es ! i) (es ! j)" using ij by (rule pw)
      moreover have "0 < length_e (es ! j)" using ij(2) pos by simp
      ultimately show False using eq by (simp add: disjoint_spans_def)
    qed
  qed
  fix a b assume "a \<in> set es" "b \<in> set es" "a \<noteq> b"
  then obtain i j where "i < length es" "es ! i = a" "j < length es" "es ! j = b"
    by (auto simp: in_set_conv_nth)
  moreover from this \<open>a \<noteq> b\<close> have "i \<noteq> j" by auto
  ultimately show "disjoint_spans a b" using pw by blast
qed

lemma sorted_disjoint_chain:
  assumes "sorted_wrt (\<lambda>a b. offset b \<le> offset a) es" and "distinct es"
    and "\<forall>e \<in> set es. 0 \<le> offset e \<and> 0 < length_e e \<and> offset e + length_e e \<le> int n"
    and "\<forall>a \<in> set es. \<forall>b \<in> set es. a \<noteq> b \<longrightarrow> disjoint_spans a b"
  shows "desc_chain n es"
  using assms
proof (induction es arbitrary: n)
  case Nil
  then show ?case by simp
next
  case (Cons e es)
  have e: "0 \<le> offset e" "0 < length_e e" "offset e + length_e e \<le> int n"
    using Cons.prems(3) by simp_all
  have below: "\<forall>x \<in> set es. 0 \<le> offset x \<and> 0 < length_e x \<and> offset x + length_e x \<le> int (nat (offset e))"
  proof
    fix x assume x: "x \<in> set es"
    then have le: "offset x \<le> offset e" using Cons.prems(1) by simp
    have ne: "e \<noteq> x" using x Cons.prems(2) by auto
    then have "disjoint_spans e x" using Cons.prems(4) x by simp
    then have "offset x + length_e x \<le> offset e" using le e(2) by (auto simp: disjoint_spans_def)
    moreover have "0 \<le> offset x" "0 < length_e x" using Cons.prems(3) x by simp_all
    ultimately show "0 \<le> offset x \<and> 0 < length_e x \<and> offset x + length_e x \<le> int (nat (offset e))"
      using e(1) by simp
  qed
  have "desc_chain (nat (offset e)) es"
    using Cons.prems below by (intro Cons.IH) simp_all
  then show ?case using e by simp
qed

lemma spans_ok_chain:
  assumes "spans_ok t es"
  shows "desc_chain (length t) (sort_reverse es)"
proof (rule sorted_disjoint_chain)
  show "sorted_wrt (\<lambda>a b. offset b \<le> offset a) (sort_reverse es)" by (rule sorted_sort_reverse)
  have s: "set (sort_reverse es) = set es" by (simp add: sort_reverse_def)
  show "distinct (sort_reverse es)"
    using spans_ok_distinct(1) [OF assms] by (simp add: sort_reverse_def)
  show "\<forall>e \<in> set (sort_reverse es). 0 \<le> offset e \<and> 0 < length_e e \<and> offset e + length_e e \<le> int (length t)"
    using assms by (simp add: s spans_ok_def)
  show "\<forall>a \<in> set (sort_reverse es). \<forall>b \<in> set (sort_reverse es). a \<noteq> b \<longrightarrow> disjoint_spans a b"
    using spans_ok_distinct(2) [OF assms] by (simp add: s)
qed

lemma marked_pieces_append: "marked_pieces (a @ b) = marked_pieces a @ marked_pieces b"
  by (induction a rule: marked_pieces.induct) simp_all

lemma marked_pieces_map: "marked_pieces (map (map_seg f) gs) = map f (marked_pieces gs)"
  by (induction gs rule: marked_pieces.induct) simp_all

lemma py_slice_in_bounds:
  assumes "0 \<le> a" "0 \<le> l" "a + l \<le> int (length t)"
  shows "py_slice t a (a + l) = take (nat l) (drop (nat a) t)"
proof -
  have "slice_index (length t) a = nat a" using assms by (simp add: slice_index_def)
  moreover have "slice_index (length t) (a + l) = nat a + nat l"
    using assms by (simp add: slice_index_def nat_add_distrib)
  ultimately show ?thesis by (simp add: py_slice_def Let_def)
qed

lemma marked_pieces_segments:
  "desc_chain n es \<Longrightarrow> n \<le> length t \<Longrightarrow>
   marked_pieces (segments (take n t) es)
     = rev (map (\<lambda>e. py_slice t (offset e) (offset e + length_e e)) es)"
proof (induction es arbitrary: n)
  case Nil
  then show ?case by simp
next
  case (Cons e es)
  have e: "0 \<le> offset e" "0 \<le> length_e e" "offset e + length_e e \<le> int n"
    and ch: "desc_chain (nat (offset e)) es"
    using Cons.prems(1) by simp_all
  have on: "nat (offset e) \<le> n" and oln: "nat (offset e) + nat (length_e e) \<le> n"
    using e by linarith+
  have ih: "marked_pieces (segments (take (nat (offset e)) t) es)
              = rev (map (\<lambda>e. py_slice t (offset e) (offset e + length_e e)) es)"
    using Cons.IH [OF ch] on Cons.prems(2) by simp
  have tt: "take (nat (offset e)) (take n t) = take (nat (offset e)) t"
    using on by (simp add: min_def)
  have "offset e + length_e e \<le> int (length t)" using e Cons.prems(2) by linarith
  then have sl: "py_slice t (offset e) (offset e + length_e e)
                  = take (nat (length_e e)) (drop (nat (offset e)) t)"
    using e by (simp add: py_slice_in_bounds)
  have piece: "take (nat (length_e e)) (drop (nat (offset e)) (take n t))
                 = take (nat (length_e e)) (drop (nat (offset e)) t)"
    using oln by (simp add: drop_take min_def)
  have "segments (take n t) (e # es)
          = segments (take (nat (offset e)) t) es
            @ [Marked (take (nat (length_e e)) (drop (nat (offset e)) t)),
               Plain (drop (nat (offset e) + nat (length_e e)) (take n t))]"
    by (simp only: segments.simps tt piece)
  then show ?case by (simp add: marked_pieces_append ih sl)
qed

lemma length_marked_segments: "length (marked_pieces (segments t es)) = length es"
  by (induction es arbitrary: t) (simp_all add: marked_pieces_append)

lemma length_render_erase:
  "length (concat (map render_seg gs))
     = length (concat (map erase_seg gs)) + 35 * length (marked_pieces gs)"
  using length_span_markup by (induction gs rule: marked_pieces.induct) simp_all

text \<open>
  Claim C2, as the code has it. For spans within the text, no two overlapping, and at
  least one of them: the output is the rendering of the segments of the text cut at the
  spans, after the newline conversion, which runs over the whole spliced string. So
  erasing the wrappers gives the text with every newline replaced by \<open><br>\<close> (the
  text itself when it has no newline), the wrapped pieces are the spans' substrings in
  text order, and the length is that of the text plus 35 for each span plus 3 for each
  newline.
\<close>

theorem highlight_length_and_unwrap:
  assumes "spans_ok text errors" and "errors \<noteq> []"
  shows "highlighted text errors = concat (map render_seg (converted_segments text errors))
         \<and> concat (map erase_seg (converted_segments text errors)) = py_replace 10 br text
         \<and> marked_pieces (converted_segments text errors)
             = map (\<lambda>e. py_replace 10 br (py_slice text (offset e) (offset e + length_e e)))
                 (rev (sort_reverse errors))
         \<and> length (highlighted text errors)
             = length text + 35 * length errors + 3 * count_list text 10"
proof -
  let ?segs = "converted_segments text errors"
  have ch: "desc_chain (length text) (sort_reverse errors)" using assms(1) by (rule spans_ok_chain)
  have h: "highlighted text errors
             = py_replace 10 br (concat (map render_seg (segments text (sort_reverse errors))))"
    using assms(2) foldl_highlight_segments [OF ch] by (simp add: highlighted_nonempty)
  have 1: "highlighted text errors = concat (map render_seg ?segs)"
    unfolding h converted_segments_def by (rule py_replace_render_segs)
  have 2: "concat (map erase_seg ?segs) = py_replace 10 br text"
    unfolding converted_segments_def by (simp only: erase_replaced_segs erase_segments)
  have "marked_pieces (segments (take (length text) text) (sort_reverse errors))
          = rev (map (\<lambda>e. py_slice text (offset e) (offset e + length_e e)) (sort_reverse errors))"
    using ch by (rule marked_pieces_segments) simp
  then have 3: "marked_pieces ?segs
      = map (\<lambda>e. py_replace 10 br (py_slice text (offset e) (offset e + length_e e)))
          (rev (sort_reverse errors))"
    by (simp add: converted_segments_def marked_pieces_map rev_map)
  have n: "length (sort_reverse errors) = length errors" by (simp add: sort_reverse_def)
  have "length (concat (map render_seg ?segs))
          = length (concat (map erase_seg ?segs)) + 35 * length (marked_pieces ?segs)"
    by (rule length_render_erase)
  then have 4: "length (highlighted text errors)
                  = length text + 35 * length errors + 3 * count_list text 10"
    unfolding 1 2 3 by (simp add: n length_py_replace_br)
  show ?thesis using 1 2 3 4 by blast
qed

theorem highlight_length_and_unwrap_witness:
  "spans_ok (U ''ab'' @ [10] @ U ''c'') [span 0 1, span 3 1]
   \<and> [span 0 1, span 3 1] \<noteq> []
   \<and> length (highlighted (U ''ab'' @ [10] @ U ''c'') [span 0 1, span 3 1]) = 4 + 35 * 2 + 3 * 1
   \<and> concat (map erase_seg (converted_segments (U ''ab'' @ [10] @ U ''c'') [span 0 1, span 3 1]))
       = U ''ab<br>c''"
proof -
  have ok: "spans_ok (U ''ab'' @ [10] @ U ''c'') [span 0 1, span 3 1]"
    by (simp add: spans_ok_def span_def disjoint_spans_def All_less_Suc nth_Cons' U_simps)
  have ne: "[span 0 1, span 3 1] \<noteq> []" by simp
  note t = highlight_length_and_unwrap [OF ok ne]
  have len: "length (highlighted (U ''ab'' @ [10] @ U ''c'') [span 0 1, span 3 1]) = 4 + 35 * 2 + 3 * 1"
    using t [THEN conjunct2, THEN conjunct2, THEN conjunct2] by (simp add: U_simps)
  have er: "concat (map erase_seg (converted_segments (U ''ab'' @ [10] @ U ''c'') [span 0 1, span 3 1]))
              = U ''ab<br>c''"
    using t [THEN conjunct2, THEN conjunct1] by (simp add: py_replace_def br_def U_simps)
  show ?thesis using ok ne len er by blast
qed

text \<open>
  Claim C2 as stated fails on a text with a newline: for the text \<open>a\n\<close> and the span
  (0,1) the output is the wrapped \<open>a\<close> followed by \<open><br>\<close>, four code points longer
  than the text plus the wrapper, and erasing the wrapper leaves \<open>a<br>\<close>, not the text.
\<close>

theorem highlight_newline_changes_length:
  "spans_ok (U ''a'' @ [10]) [span 0 1]
   \<and> length (highlighted (U ''a'' @ [10]) [span 0 1])
       \<noteq> length (U ''a'' @ [10]) + 35 * length [span 0 1]
   \<and> highlighted (U ''a'' @ [10]) [span 0 1] = span_open @ U ''a'' @ span_close @ U ''<br>''"
  by (simp add: spans_ok_def highlighted_def render_simple_highlight_def sort_reverse_def span_def
      highlight_step_def py_slice_def py_slice_to_def py_slice_from_def slice_index_def
      span_open_def span_close_def py_replace_def br_def U_simps)

section \<open>Properties of the response parser\<close>

lemma str_lower_append: "str_lower (a @ b) = str_lower a @ str_lower b"
  by (simp add: str_lower_def)

lemma str_lower_Cons: "str_lower (c # s) = lower_cp c @ str_lower s"
  by (simp add: str_lower_def)

lemma str_lower_Nil: "str_lower [] = []"
  by (simp add: str_lower_def)

lemma lower_ascii: "c < 192 \<Longrightarrow> lower_cp c = (if 65 \<le> c \<and> c \<le> 90 then [c + 32] else [c])"
  by (simp add: lower_cp_def)

lemma lower_keywords:
  "str_lower (U ''Task Response'') = U ''task response''"
  "str_lower (U ''Information Accuracy'') = U ''information accuracy''"
  "str_lower (U ''Idea Development'') = U ''idea development''"
  "str_lower (U ''Coherence'') = U ''coherence''"
  "str_lower (U ''Summary'') = U ''summary''"
  "str_lower (U ''Final Evaluation'') = U ''final evaluation''"
  "str_lower (U ''AI Plagiarism'') = U ''ai plagiarism''"
  by (simp_all add: U_simps str_lower_Cons str_lower_Nil lower_ascii)

lemma lower_keywords_vi:
  "str_lower [80, 104, 7843, 110, 32, 104, 7891, 105, 32, 121, 234, 117, 32, 99, 7847, 117]
     = [112, 104, 7843, 110, 32, 104, 7891, 105, 32, 121, 234, 117, 32, 99, 7847, 117]"
  "str_lower [272, 7897, 32, 99, 104, 237, 110, 104, 32, 120, 225, 99, 32, 116, 104, 244, 110, 103, 32, 116, 105, 110]
     = [273, 7897, 32, 99, 104, 237, 110, 104, 32, 120, 225, 99, 32, 116, 104, 244, 110, 103, 32, 116, 105, 110]"
  "str_lower [80, 104, 225, 116, 32, 116, 114, 105, 7875, 110, 32, 253, 32, 116, 432, 7903, 110, 103]
     = [112, 104, 225, 116, 32, 116, 114, 105, 7875, 110, 32, 253, 32, 116, 432, 7903, 110, 103]"
  "str_lower [83, 7921, 32, 109, 7841, 99, 104, 32, 108, 7841, 99]
     = [115, 7921, 32, 109, 7841, 99, 104, 32, 108, 7841, 99]"
  "str_lower [75, 7871, 116, 32, 108, 117, 7853, 110] = [107, 7871, 116, 32, 108, 117, 7853, 110]"
  "str_lower [272, 225, 110, 104, 32, 103, 105, 225, 32, 116, 7893, 110, 103, 32, 113, 117, 97, 110]
     = [273, 225, 110, 104, 32, 103, 105, 225, 32, 116, 7893, 110, 103, 32, 113, 117, 97, 110]"
  "str_lower [80, 104, 225, 116, 32, 104, 105, 7879, 110, 32, 65, 73]
     = [112, 104, 225, 116, 32, 104, 105, 7879, 110, 32, 97, 105]"
  by (simp_all add: str_lower_Cons str_lower_Nil lower_cp_def lower_irregular_def)

lemma and_then_simps [simp]:
  "and_then (Inl e) f = Inl e"
  "and_then (Inr x) f = f x"
  by (simp_all add: and_then_def)

lemma and_then_Inr_iff:
  "(and_then r f = Inr y) = (\<exists>x. r = Inr x \<and> f x = Inr y)"
  by (cases r) simp_all

lemma scan_keywords_eq:
  "scan_keywords clean k kws st =
     (if \<exists>kw \<in> set kws. prefix (str_lower kw) (norm_line clean)
      then and_then (open_section clean k st) (\<lambda>st'. Inr (st', True))
      else Inr (st, False))"
  by (induction kws) simp_all

lemma scan_sections_eq:
  "scan_sections smap clean st =
     (case first_section smap (norm_line clean) of
        None \<Rightarrow> Inr (st, False)
      | Some k \<Rightarrow> and_then (open_section clean k st) (\<lambda>st'. Inr (st', True)))"
proof (induction smap)
  case Nil
  then show ?case by (simp add: first_section_def)
next
  case (Cons kv smap)
  obtain k kws where kv: "kv = (k, kws)" by (cases kv)
  show ?case
  proof (cases "\<exists>kw \<in> set kws. prefix (str_lower kw) (norm_line clean)")
    case True
    then show ?thesis
      by (cases "open_section clean k st") (simp_all add: kv first_section_def scan_keywords_eq)
  next
    case False
    then show ?thesis
      using Cons.IH by (simp add: kv first_section_def scan_keywords_eq)
  qed
qed

lemma open_section_current:
  "open_section clean k st = Inr st' \<Longrightarrow> current_section st' = Some k"
  by (auto simp: open_section_def Let_def and_then_Inr_iff split: if_splits)

lemma first_section_Some_iff:
  "(first_section smap norm = Some k) =
     (\<exists>i < length smap. fst (smap ! i) = k
        \<and> (\<exists>kw \<in> set (snd (smap ! i)). prefix (str_lower kw) norm)
        \<and> (\<forall>j < i. \<not> (\<exists>kw \<in> set (snd (smap ! j)). prefix (str_lower kw) norm)))"
proof -
  let ?P = "\<lambda>kv. \<exists>kw \<in> set (snd kv). prefix (str_lower kw) norm"
  have "(first_section smap norm = Some k) = (\<exists>z. find ?P smap = Some z \<and> fst z = k)"
    by (auto simp: first_section_def)
  also have "\<dots> = (\<exists>i < length smap. ?P (smap ! i) \<and> fst (smap ! i) = k \<and> (\<forall>j < i. \<not> ?P (smap ! j)))"
    unfolding find_Some_iff by blast
  finally show ?thesis by blast
qed

lemma first_section_None_iff:
  "(first_section smap norm = None) =
     (\<forall>kv \<in> set smap. \<not> (\<exists>kw \<in> set (snd kv). prefix (str_lower kw) norm))"
  by (auto simp: first_section_def find_None_iff)

text \<open>
  Claim C8. When the loop over the sections and their keywords returns, a section was
  opened exactly if some keyword, lower-cased, is a prefix of the normalized line, and
  the section then current is the first key in the order of the map that has such a
  keyword: the entry at some index matches and no entry before it does. So where the
  keyword lists of two sections share a prefix, the section declared earlier wins.
\<close>

theorem section_opening_first_match:
  assumes "scan_sections smap clean_line st = Inr (st', is_new_section)"
  shows "is_new_section = (first_section smap (norm_line clean_line) \<noteq> None)
         \<and> current_section st' =
             (case first_section smap (norm_line clean_line) of
                Some k \<Rightarrow> Some k | None \<Rightarrow> current_section st)
         \<and> (\<forall>k. (first_section smap (norm_line clean_line) = Some k) =
               (\<exists>i < length smap. fst (smap ! i) = k
                  \<and> (\<exists>kw \<in> set (snd (smap ! i)). prefix (str_lower kw) (norm_line clean_line))
                  \<and> (\<forall>j < i. \<not> (\<exists>kw \<in> set (snd (smap ! j)).
                                   prefix (str_lower kw) (norm_line clean_line)))))"
proof -
  have 3: "\<forall>k. (first_section smap (norm_line clean_line) = Some k) =
               (\<exists>i < length smap. fst (smap ! i) = k
                  \<and> (\<exists>kw \<in> set (snd (smap ! i)). prefix (str_lower kw) (norm_line clean_line))
                  \<and> (\<forall>j < i. \<not> (\<exists>kw \<in> set (snd (smap ! j)).
                                   prefix (str_lower kw) (norm_line clean_line))))"
    by (simp only: first_section_Some_iff) simp
  have 12: "is_new_section = (first_section smap (norm_line clean_line) \<noteq> None)
         \<and> current_section st' =
             (case first_section smap (norm_line clean_line) of
                Some k \<Rightarrow> Some k | None \<Rightarrow> current_section st)"
  proof (cases "first_section smap (norm_line clean_line)")
    case None
    with assms show ?thesis by (simp add: scan_sections_eq)
  next
    case (Some k)
    with assms have "\<exists>x. open_section clean_line k st = Inr x \<and> st' = x \<and> is_new_section"
      by (auto simp: scan_sections_eq and_then_Inr_iff)
    then have "is_new_section" "current_section st' = Some k"
      by (auto dest: open_section_current)
    with Some show ?thesis by simp
  qed
  show ?thesis using 12 3 by blast
qed

lemma py_strip_rstrip: "py_strip s = rstrip (dropWhile isspace s)"
  by (simp add: py_strip_def rstrip_def)

lemma rstrip_nonspace: "\<not> isspace c \<Longrightarrow> rstrip (a @ c # b) = a @ c # rstrip b"
  by (simp add: rstrip_def dropWhile_append)

lemma rstrip_Nil [simp]: "rstrip [] = []"
  by (simp add: rstrip_def)

lemma py_strip_Nil [simp]: "py_strip [] = []"
  by (simp add: py_strip_def)

lemma py_strip_Cons_nonspace: "\<not> isspace c \<Longrightarrow> py_strip (c # s) = c # rstrip s"
  using rstrip_nonspace [of c "[]" s] by (simp add: py_strip_rstrip)

lemma rstrip_snoc_nonspace: "\<not> isspace c \<Longrightarrow> rstrip (s @ [c]) = s @ [c]"
  using rstrip_nonspace [of c s "[]"] by simp

lemma rstrip_snoc_space: "isspace c \<Longrightarrow> rstrip (s @ [c]) = rstrip s"
  by (simp add: rstrip_def)

lemma set_py_strip: "set (py_strip s) \<subseteq> set s"
  by (auto simp: py_strip_def dest!: set_dropWhileD)

lemma py_strip_ends:
  assumes "py_strip s \<noteq> []"
  shows "\<not> isspace (hd (py_strip s))" and "\<not> isspace (last (py_strip s))"
proof -
  let ?d = "dropWhile isspace s"
  let ?r = "dropWhile isspace (rev ?d)"
  have r: "?r \<noteq> []" using assms by (simp add: py_strip_def)
  then have hr: "\<not> isspace (hd ?r)" by (rule hd_dropWhile)
  have "last (py_strip s) = hd ?r" using r by (simp add: py_strip_def last_rev)
  then show "\<not> isspace (last (py_strip s))" using hr by simp
  have d: "?d \<noteq> []" using r by (metis dropWhile.simps(1) rev.simps(1))
  then have hd: "\<not> isspace (hd ?d)" by (rule hd_dropWhile)
  have rs: "py_strip s = rstrip ?d" by (rule py_strip_rstrip)
  obtain c t where ct: "?d = c # t" using d by (cases ?d) auto
  then have "\<not> isspace c" using hd by simp
  then have "rstrip ?d = c # rstrip t" using rstrip_nonspace [of c "[]" t] ct by simp
  then show "\<not> isspace (hd (py_strip s))" using rs \<open>\<not> isspace c\<close> by simp
qed

lemma py_strip_idem_ends:
  assumes "c \<noteq> []" "\<not> isspace (hd c)" "\<not> isspace (last c)"
  shows "py_strip c = c"
proof -
  obtain b x where c: "c = b @ [x]" using assms(1) by (metis append_butlast_last_id)
  then have x: "\<not> isspace x" using assms(3) by simp
  have "dropWhile isspace c = c" using assms(1,2) by (cases c) simp_all
  then show ?thesis using rstrip_snoc_nonspace [OF x, of b] c by (simp add: py_strip_rstrip)
qed

lemma py_replace_nil_filter: "py_replace m [] s = filter (\<lambda>c. c \<noteq> m) s"
  by (induction s) (simp_all add: py_replace_def)

lemma unmarked_filter: "unmarked s = filter (\<lambda>c. c \<noteq> 42 \<and> c \<noteq> 45 \<and> c \<noteq> 35) s"
  by (simp add: unmarked_def py_replace_nil_filter conj_commute conj_left_commute)

lemma norm_line_key:
  assumes "k = c # k'" "\<not> isspace c" "\<forall>x \<in> set k. x \<noteq> 42 \<and> x \<noteq> 45 \<and> x \<noteq> 35"
  shows "norm_line (k @ 58 # w) = str_lower k @ 58 # str_lower (rstrip (unmarked w))"
proof -
  have f: "unmarked (k @ 58 # w) = k @ 58 # unmarked w"
    using assms(3) by (simp add: unmarked_filter filter_id_conv)
  have "py_strip (k @ 58 # unmarked w) = c # rstrip (k' @ 58 # unmarked w)"
    using assms(1,2) by (simp add: py_strip_Cons_nonspace)
  also have "rstrip (k' @ 58 # unmarked w) = k' @ 58 # rstrip (unmarked w)"
    by (rule rstrip_nonspace) (simp add: isspace_def)
  finally have "py_strip (k @ 58 # unmarked w) = k @ 58 # rstrip (unmarked w)"
    using assms(1) by simp
  then show ?thesis
    using f by (simp add: norm_line_def unmarked_def [symmetric] str_lower_append str_lower_Cons lower_ascii)
qed

lemma norm_line_keys:
  "norm_line (U ''Task Response'' @ 58 # w) = U ''task response'' @ 58 # str_lower (rstrip (unmarked w))"
  "norm_line (U ''Information Accuracy'' @ 58 # w) = U ''information accuracy'' @ 58 # str_lower (rstrip (unmarked w))"
  "norm_line (U ''Idea Development'' @ 58 # w) = U ''idea development'' @ 58 # str_lower (rstrip (unmarked w))"
  "norm_line (U ''Coherence'' @ 58 # w) = U ''coherence'' @ 58 # str_lower (rstrip (unmarked w))"
  "norm_line (U ''Summary'' @ 58 # w) = U ''summary'' @ 58 # str_lower (rstrip (unmarked w))"
  "norm_line (U ''Final Evaluation'' @ 58 # w) = U ''final evaluation'' @ 58 # str_lower (rstrip (unmarked w))"
  "norm_line (U ''AI Plagiarism'' @ 58 # w) = U ''ai plagiarism'' @ 58 # str_lower (rstrip (unmarked w))"
  by (subst norm_line_key, simp add: U_simps, simp add: isspace_def, simp add: U_simps, simp only: lower_keywords)+

lemma section_keys_eq:
  "section_keys = [U ''Task Response'', U ''Information Accuracy'', U ''Idea Development'',
     U ''Coherence'', U ''Summary'', U ''Final Evaluation'', U ''AI Plagiarism'']"
  by (simp add: section_keys_def section_map_def)

lemma first_section_keys:
  "first_section section_map (norm_line (U ''Task Response'' @ 58 # w)) = Some (U ''Task Response'')"
  "first_section section_map (norm_line (U ''Information Accuracy'' @ 58 # w)) = Some (U ''Information Accuracy'')"
  "first_section section_map (norm_line (U ''Idea Development'' @ 58 # w)) = Some (U ''Idea Development'')"
  "first_section section_map (norm_line (U ''Coherence'' @ 58 # w)) = Some (U ''Coherence'')"
  "first_section section_map (norm_line (U ''Summary'' @ 58 # w)) = Some (U ''Summary'')"
  "first_section section_map (norm_line (U ''Final Evaluation'' @ 58 # w)) = Some (U ''Final Evaluation'')"
  "first_section section_map (norm_line (U ''AI Plagiarism'' @ 58 # w)) = Some (U ''AI Plagiarism'')"
  unfolding norm_line_keys first_section_def section_map_def
  by (simp_all add: U_simps str_lower_Cons str_lower_Nil lower_cp_def lower_irregular_def)

lemma value_ok_append:
  assumes "value_ok v" "c \<noteq> []" "\<not> isspace (hd c)" "\<not> isspace (last c)" "10 \<notin> set c"
  shows "value_ok (v @ c @ [32])"
proof (cases "v = []")
  case True
  with assms show ?thesis by (auto simp: value_ok_def)
next
  case False
  then obtain b where b: "v = b @ [32]" "b \<noteq> []" "\<not> isspace (hd b)" "10 \<notin> set b"
    using assms(1) by (auto simp: value_ok_def)
  have "v @ c @ [32] = (b @ 32 # c) @ [32]" using b by simp
  moreover have "b @ 32 # c \<noteq> []" "\<not> isspace (hd (b @ 32 # c))" "\<not> isspace (last (b @ 32 # c))"
    "10 \<notin> set (b @ 32 # c)"
    using b assms by simp_all
  ultimately show ?thesis unfolding value_ok_def by blast
qed

lemma update_all_values:
  "P v \<Longrightarrow> \<forall>kv \<in> set al. P (snd kv) \<Longrightarrow> \<forall>kv \<in> set (AList.update k v al). P (snd kv)"
  by (induction al) auto

lemma dict_append_ok:
  assumes "k \<in> fst ` set d"
  shows "\<exists>v. map_of d k = Some v \<and> (k, v) \<in> set d
             \<and> dict_append d k s = Inr (AList.update k (v @ s) d)"
proof -
  obtain v where v: "map_of d k = Some v"
    using assms by (metis domD dom_map_of_conv_image_fst)
  then have "(k, v) \<in> set d" by (rule map_of_SomeD)
  with v show ?thesis by (simp add: dict_append_def)
qed

lemma state_ok_append:
  assumes ok: "state_ok smap st" and k: "k \<in> fst ` set smap"
    and c: "c \<noteq> []" "\<not> isspace (hd c)" "\<not> isspace (last c)" "10 \<notin> set c"
  shows "\<exists>d. dict_append (parsed_data st) k (c @ [32]) = Inr d
              \<and> state_ok smap (st\<lparr>current_section := cur, parsed_data := d\<rparr>) = (\<forall>k'. cur = Some k' \<longrightarrow> k' \<in> fst ` set smap)"
proof -
  have keys: "map fst (parsed_data st) = map fst smap" using ok by (simp add: state_ok_def)
  then have "fst ` set (parsed_data st) = fst ` set smap" by (metis set_map)
  then have kd: "k \<in> fst ` set (parsed_data st)" using k by simp
  from dict_append_ok [OF kd, of "c @ [32]"] obtain v where
    v: "(k, v) \<in> set (parsed_data st)"
    and da: "dict_append (parsed_data st) k (c @ [32]) = Inr (AList.update k (v @ c @ [32]) (parsed_data st))"
    by auto
  have "value_ok v" using ok v by (auto simp: state_ok_def)
  then have nv: "value_ok (v @ c @ [32])" using c by (rule value_ok_append)
  have vals: "\<forall>kv \<in> set (AList.update k (v @ c @ [32]) (parsed_data st)). value_ok (snd kv)"
    using nv ok by (intro update_all_values) (simp_all add: state_ok_def)
  have keys': "map fst (AList.update k (v @ c @ [32]) (parsed_data st)) = map fst smap"
  proof -
    have "k \<in> set (map fst (parsed_data st))" using kd by simp
    then show ?thesis using keys by (simp only: AList.update_keys if_True)
  qed
  show ?thesis using da vals keys' by (simp add: state_ok_def)
qed

lemma first_section_in_keys:
  "first_section smap norm = Some k \<Longrightarrow> k \<in> fst ` set smap"
  by (auto simp: first_section_Some_iff)

lemma set_after_colon: "set (tl (dropWhile (\<lambda>c. c \<noteq> sep) s)) \<subseteq> set s"
proof
  fix x assume "x \<in> set (tl (dropWhile (\<lambda>c. c \<noteq> sep) s))"
  then have "x \<in> set (dropWhile (\<lambda>c. c \<noteq> sep) s)" by (cases "dropWhile (\<lambda>c. c \<noteq> sep) s") simp_all
  then show "x \<in> set s" by (rule set_dropWhileD)
qed

lemma open_section_ok:
  assumes ok: "state_ok smap st" and k: "k \<in> fst ` set smap" and nl: "10 \<notin> set clean"
  shows "\<exists>st'. open_section clean k st = Inr st' \<and> state_ok smap st'"
proof -
  let ?st1 = "st\<lparr>current_section := Some k\<rparr>"
  have ok1: "state_ok smap ?st1" using ok k by (simp add: state_ok_def)
  show ?thesis
  proof (cases "58 \<in> set clean")
    case False
    then show ?thesis using ok1 by (simp add: open_section_def)
  next
    case True
    let ?part = "tl (dropWhile (\<lambda>c. c \<noteq> 58) clean)"
    have it: "item (split_once 58 clean) 1 = Inr ?part"
      using True by (simp add: split_once_def item_def)
    show ?thesis
    proof (cases "py_strip ?part = []")
      case True
      then show ?thesis using \<open>58 \<in> set clean\<close> it ok1 by (simp add: open_section_def Let_def)
    next
      case False
      have "set (py_strip ?part) \<subseteq> set clean"
        using set_py_strip [of ?part] set_after_colon [of 58 clean] by blast
      then have n10: "10 \<notin> set (py_strip ?part)" using nl by blast
      from state_ok_append [OF ok k False py_strip_ends [OF False] n10, of "Some k"]
      obtain d where d: "dict_append (parsed_data st) k (py_strip ?part @ [32]) = Inr d"
        and okd: "state_ok smap (st\<lparr>current_section := Some k, parsed_data := d\<rparr>)"
        using k by auto
      show ?thesis
        using \<open>58 \<in> set clean\<close> it False d okd by (simp add: open_section_def Let_def)
    qed
  qed
qed

lemma parse_line_ok:
  assumes ok: "state_ok smap st" and nl: "10 \<notin> set line"
  shows "\<exists>st'. parse_line smap st line = Inr st' \<and> state_ok smap st'"
proof (cases "py_strip line = []")
  case True
  then show ?thesis using ok by (simp add: parse_line_def)
next
  case False
  have n10: "10 \<notin> set (py_strip line)" using nl set_py_strip [of line] by blast
  show ?thesis
  proof (cases "first_section smap (norm_line (py_strip line))")
    case (Some k)
    then have "k \<in> fst ` set smap" by (rule first_section_in_keys)
    from open_section_ok [OF ok this n10] obtain st' where
      "open_section (py_strip line) k st = Inr st'" "state_ok smap st'" by auto
    then show ?thesis using False Some by (simp add: parse_line_def scan_sections_eq)
  next
    case None
    show ?thesis
    proof (cases "current_section st")
      case cn: None
      then show ?thesis using False None ok by (simp add: parse_line_def scan_sections_eq)
    next
      case (Some k)
      show ?thesis
      proof (cases "k = []")
        case True
        then show ?thesis using False None Some ok by (simp add: parse_line_def scan_sections_eq)
      next
        case kne: False
        have k: "k \<in> fst ` set smap" using ok Some by (simp add: state_ok_def)
        from state_ok_append [OF ok k False py_strip_ends [OF False] n10, of "Some k"]
        obtain d where d: "dict_append (parsed_data st) k (py_strip line @ [32]) = Inr d"
          and okd: "state_ok smap (st\<lparr>current_section := Some k, parsed_data := d\<rparr>)"
          using k by auto
        have "state_ok smap (st\<lparr>parsed_data := d\<rparr>)"
          using okd Some by (simp add: state_ok_def)
        then show ?thesis
          using False None Some kne d by (simp add: parse_line_def scan_sections_eq)
      qed
    qed
  qed
qed

lemma parse_lines_ok:
  "state_ok smap st \<Longrightarrow> \<forall>l \<in> set lines. 10 \<notin> set l \<Longrightarrow>
   \<exists>st'. parse_lines smap st lines = Inr st' \<and> state_ok smap st'"
proof (induction lines arbitrary: st)
  case Nil
  then show ?case by simp
next
  case (Cons l lines)
  from parse_line_ok [OF Cons.prems(1), of l] Cons.prems(2)
  obtain st1 where "parse_line smap st l = Inr st1" "state_ok smap st1" by auto
  then show ?case using Cons.IH [of st1] Cons.prems(2) by simp
qed

lemma py_split_no_sep: "\<forall>l \<in> set (py_split sep s). sep \<notin> set l"
proof (induction s)
  case Nil
  then show ?case by simp
next
  case (Cons c s)
  have ne: "py_split sep s \<noteq> []" by (cases s) (simp_all add: Let_def)
  then obtain h t where ht: "py_split sep s = h # t" by (cases "py_split sep s") auto
  then show ?case using Cons by (auto simp: Let_def)
qed

lemma initial_state_ok: "state_ok smap (initial_state smap)"
  by (simp add: state_ok_def initial_state_def comp_def value_ok_def image_iff)

lemma parse_lines_append:
  "parse_lines smap st (a @ b) = and_then (parse_lines smap st a) (\<lambda>st'. parse_lines smap st' b)"
proof (induction a arbitrary: st)
  case Nil
  then show ?case by simp
next
  case (Cons l a)
  then show ?case by (cases "parse_line smap st l") simp_all
qed

lemma parse_line_dropped:
  assumes "current_section st = None"
    and "py_strip line = [] \<or> first_section smap (norm_line (py_strip line)) = None"
  shows "parse_line smap st line = Inr st"
  using assms by (auto simp: parse_line_def scan_sections_eq Let_def)

lemma parse_lines_dropped:
  assumes "current_section st = None"
    and "\<forall>l \<in> set pre. py_strip l = [] \<or> first_section smap (norm_line (py_strip l)) = None"
  shows "parse_lines smap st pre = Inr st"
  using assms by (induction pre) (simp_all add: parse_line_dropped)

text \<open>
  Claim C6. For every section map and every raw text the parser returns a map, with
  the keys of the section map: no lookup and no index in it can raise. And if the
  lines of the text start with lines that are blank or open no section, the result is
  that of the loop run from the initial state over the remaining lines alone: the lines
  before the first section-opening line add nothing to any section.
\<close>

theorem parser_total_and_drops_preamble:
  "(\<exists>d. parse smap raw = Inr d \<and> map fst d = map fst smap)
   \<and> (\<forall>pre rest.
        py_split 10 raw = pre @ rest
        \<and> (\<forall>l \<in> set pre. py_strip l = [] \<or> first_section smap (norm_line (py_strip l)) = None)
        \<longrightarrow> parse smap raw
             = and_then (parse_lines smap (initial_state smap) rest) (\<lambda>st. Inr (parsed_data st)))"
proof (intro conjI allI impI)
  from parse_lines_ok [OF initial_state_ok [of smap] py_split_no_sep [of 10 raw]]
  obtain st where "parse_lines smap (initial_state smap) (py_split 10 raw) = Inr st"
    and "state_ok smap st" by auto
  then show "\<exists>d. parse smap raw = Inr d \<and> map fst d = map fst smap"
    by (simp add: parse_def state_ok_def)
next
  fix pre rest
  assume a: "py_split 10 raw = pre @ rest
        \<and> (\<forall>l \<in> set pre. py_strip l = [] \<or> first_section smap (norm_line (py_strip l)) = None)"
  have "parse_lines smap (initial_state smap) pre = Inr (initial_state smap)"
    using a by (intro parse_lines_dropped) (simp_all add: initial_state_def)
  then show "parse smap raw
             = and_then (parse_lines smap (initial_state smap) rest) (\<lambda>st. Inr (parsed_data st))"
    using a by (simp add: parse_def parse_lines_append)
qed

lemma split_once_key: 
  assumes "58 \<notin> set k"
  shows "split_once 58 (k @ 58 # w) = [k, w]"
proof -
  have p: "\<And>x. x \<in> set k \<Longrightarrow> x \<noteq> 58" using assms by auto
  have "takeWhile (\<lambda>c. c \<noteq> 58) (k @ 58 # w) = k" using p by (simp add: takeWhile_append2)
  moreover have "dropWhile (\<lambda>c. c \<noteq> 58) (k @ 58 # w) = 58 # w" using p by (simp add: dropWhile_append2)
  ultimately show ?thesis by (simp add: split_once_def)
qed

lemma open_section_key:
  assumes "58 \<notin> set k"
  shows "open_section (k @ 58 # w) k st =
     (if py_strip w \<noteq> []
      then and_then (dict_append (parsed_data st) k (py_strip w @ [32]))
             (\<lambda>d. Inr (st\<lparr>current_section := Some k, parsed_data := d\<rparr>))
      else Inr (st\<lparr>current_section := Some k\<rparr>))"
  using assms by (simp add: open_section_def Let_def split_once_key item_def)

lemma section_keys_cases:
  assumes "k \<in> set section_keys"
  obtains "k = U ''Task Response''" | "k = U ''Information Accuracy''" | "k = U ''Idea Development''"
    | "k = U ''Coherence''" | "k = U ''Summary''" | "k = U ''Final Evaluation''"
    | "k = U ''AI Plagiarism''"
proof -
  from assms have "k = U ''Task Response'' \<or> k = U ''Information Accuracy''
      \<or> k = U ''Idea Development'' \<or> k = U ''Coherence'' \<or> k = U ''Summary''
      \<or> k = U ''Final Evaluation'' \<or> k = U ''AI Plagiarism''"
    by (simp only: section_keys_eq list.set insert_iff empty_iff simp_thms)
  then show thesis using that by blast
qed

lemma first_section_key:
  "k \<in> set section_keys \<Longrightarrow> first_section section_map (norm_line (k @ 58 # w)) = Some k"
  by (erule section_keys_cases) (simp_all only: first_section_keys)

lemma section_key_props:
  assumes "k \<in> set section_keys"
  shows "58 \<notin> set k" and "10 \<notin> set k" and "k \<noteq> []" and "\<not> isspace (hd k)"
  using assms by (auto elim!: section_keys_cases simp: isspace_def U_simps)

lemma parse_line_key:
  assumes "k \<in> set section_keys" and "py_strip line = k @ 58 # w"
  shows "parse_line section_map st line = open_section (k @ 58 # w) k st"
proof -
  have fs: "first_section section_map (norm_line (k @ 58 # w)) = Some k"
    using assms(1) by (rule first_section_key)
  show ?thesis
    by (cases "open_section (k @ 58 # w) k st")
       (simp_all add: parse_line_def assms(2) scan_sections_eq fs)
qed

lemma py_split_single: "sep \<notin> set l \<Longrightarrow> py_split sep l = [l]"
  by (induction l) (simp_all add: Let_def)

lemma py_split_line: "sep \<notin> set l \<Longrightarrow> py_split sep (l @ sep # r) = l # py_split sep r"
  by (induction l) (simp_all add: Let_def)

lemma py_split_join:
  "ls \<noteq> [] \<Longrightarrow> \<forall>l \<in> set ls. sep \<notin> set l \<Longrightarrow> py_split sep (py_join [sep] ls) = ls"
proof (induction ls)
  case Nil
  then show ?case by simp
next
  case (Cons x ls)
  show ?case
  proof (cases ls)
    case Nil
    then show ?thesis using Cons.prems by (simp add: py_split_single)
  next
    case (Cons y zs)
    then have "py_split sep (py_join [sep] ls) = ls" using Cons.IH Cons.prems by simp
    then show ?thesis using Cons Cons.prems by (simp add: py_split_line)
  qed
qed

lemma value_ok_no_nl: "value_ok v \<Longrightarrow> 10 \<notin> set v"
  by (auto simp: value_ok_def)

lemma py_strip_rendered:
  assumes k: "k \<noteq> []" "\<not> isspace (hd k)" and v: "value_ok v"
  shows "py_strip (render_line (k, v)) = k @ 58 # (if v = [] then [] else 32 # butlast v)"
proof -
  obtain x k' where xk: "k = x # k'" using k(1) by (cases k) auto
  then have x: "\<not> isspace x" using k(2) by simp
  have c58: "\<not> isspace 58" by (simp add: isspace_def)
  have s32: "isspace 32" by (simp add: isspace_def)
  have st: "py_strip (render_line (k, v)) = x # rstrip (k' @ [58, 32] @ v)"
    using x by (simp add: render_line_def xk py_strip_Cons_nonspace)
  show ?thesis
  proof (cases "v = []")
    case True
    have "rstrip (k' @ [58, 32]) = rstrip ((k' @ [58]) @ [32])" by simp
    also have "\<dots> = rstrip (k' @ [58])" using s32 by (rule rstrip_snoc_space)
    also have "\<dots> = k' @ [58]" using c58 by (rule rstrip_snoc_nonspace)
    finally show ?thesis using st True xk by simp
  next
    case False
    then obtain c where c: "v = c @ [32]" "c \<noteq> []" "\<not> isspace (last c)"
      using v by (auto simp: value_ok_def)
    obtain b y where cb: "c = b @ [y]" using c(2) by (metis append_butlast_last_id)
    then have y: "\<not> isspace y" using c(3) by simp
    have "rstrip (k' @ [58, 32] @ v) = rstrip ((k' @ [58, 32] @ c) @ [32])" using c(1) by simp
    also have "\<dots> = rstrip (k' @ [58, 32] @ c)" using s32 by (rule rstrip_snoc_space)
    also have "\<dots> = rstrip ((k' @ [58, 32] @ b) @ [y])" using cb by simp
    also have "\<dots> = (k' @ [58, 32] @ b) @ [y]" using y by (rule rstrip_snoc_nonspace)
    also have "\<dots> = k' @ [58, 32] @ c" using cb by simp
    finally have r: "rstrip (k' @ [58, 32] @ v) = k' @ [58, 32] @ c" .
    have bl: "butlast v = c" using c(1) by simp
    show ?thesis unfolding st r bl using False xk by simp
  qed
qed

lemma py_strip_space_value:
  assumes "value_ok v" "v \<noteq> []"
  shows "py_strip (32 # butlast v) = butlast v" and "butlast v @ [32] = v" and "butlast v \<noteq> []"
proof -
  obtain c where c: "v = c @ [32]" "c \<noteq> []" "\<not> isspace (hd c)" "\<not> isspace (last c)"
    using assms by (auto simp: value_ok_def)
  have "py_strip (32 # c) = py_strip c" by (simp add: py_strip_def isspace_def)
  also have "\<dots> = c" using c(2,3,4) by (rule py_strip_idem_ends)
  finally show "py_strip (32 # butlast v) = butlast v" using c(1) by simp
  show "butlast v @ [32] = v" using c(1) by simp
  show "butlast v \<noteq> []" using c(1,2) by simp
qed

lemma parse_line_rendered:
  assumes k: "k \<in> set section_keys" and v: "value_ok v"
    and old: "map_of (parsed_data st) k = Some old"
  shows "parse_line section_map st (render_line (k, v))
           = Inr (st\<lparr>current_section := Some k,
                      parsed_data := AList.update k (old @ v) (parsed_data st)\<rparr>)"
proof -
  note kp = section_key_props [OF k]
  have "parse_line section_map st (render_line (k, v))
          = open_section (k @ 58 # (if v = [] then [] else 32 # butlast v)) k st"
    using k py_strip_rendered [OF kp(3,4) v] by (rule parse_line_key)
  also have "\<dots> = Inr (st\<lparr>current_section := Some k,
                      parsed_data := AList.update k (old @ v) (parsed_data st)\<rparr>)"
  proof (cases "v = []")
    case True
    have "AList.update k old (parsed_data st) = parsed_data st" using old by (rule AList.update_triv)
    then show ?thesis using True by (simp add: open_section_key [OF kp(1)])
  next
    case False
    note sv = py_strip_space_value [OF v False]
    show ?thesis
      using False sv old by (simp add: open_section_key [OF kp(1)] dict_append_def)
  qed
  finally show ?thesis .
qed

lemma list7:
  assumes "length xs = 7"
  obtains a b c d e f g where "xs = [a, b, c, d, e, f, g]"
proof -
  from assms have "\<exists>a b c d e f g. xs = [a, b, c, d, e, f, g]"
    by (auto simp: length_Suc_conv eval_nat_numeral)
  then show thesis using that by blast
qed

lemma parse_rendered:
  assumes ok: "value_ok v1" "value_ok v2" "value_ok v3" "value_ok v4" "value_ok v5" "value_ok v6"
    "value_ok v7"
  shows "parse section_map (render_kv [(U ''Task Response'', v1), (U ''Information Accuracy'', v2), (U ''Idea Development'', v3), (U ''Coherence'', v4), (U ''Summary'', v5), (U ''Final Evaluation'', v6), (U ''AI Plagiarism'', v7)]) = Inr [(U ''Task Response'', v1), (U ''Information Accuracy'', v2), (U ''Idea Development'', v3), (U ''Coherence'', v4), (U ''Summary'', v5), (U ''Final Evaluation'', v6), (U ''AI Plagiarism'', v7)]"
proof -
  let ?lines = "[render_line (U ''Task Response'', v1), render_line (U ''Information Accuracy'', v2), render_line (U ''Idea Development'', v3), render_line (U ''Coherence'', v4), render_line (U ''Summary'', v5), render_line (U ''Final Evaluation'', v6), render_line (U ''AI Plagiarism'', v7)]"
  have nl: "\<forall>l \<in> set ?lines. 10 \<notin> set l"
    using ok by (simp add: render_line_def value_ok_no_nl U_simps)
  have sp: "py_split 10 (render_kv [(U ''Task Response'', v1), (U ''Information Accuracy'', v2), (U ''Idea Development'', v3), (U ''Coherence'', v4), (U ''Summary'', v5), (U ''Final Evaluation'', v6), (U ''AI Plagiarism'', v7)]) = ?lines"
    using py_split_join [of ?lines 10] nl by (simp add: render_kv_def)
  have s1: "parse_line section_map (initial_state section_map) (render_line (U ''Task Response'', v1))
      = Inr \<lparr>parsed_data = [(U ''Task Response'', v1), (U ''Information Accuracy'', []), (U ''Idea Development'', []), (U ''Coherence'', []), (U ''Summary'', []), (U ''Final Evaluation'', []), (U ''AI Plagiarism'', [])], current_section = Some (U ''Task Response'')\<rparr>"
    by (subst parse_line_rendered [where old = "[]"])
       (simp_all add: section_keys_eq ok initial_state_def section_map_def U_simps)
  have s2: "parse_line section_map (\<lparr>parsed_data = [(U ''Task Response'', v1), (U ''Information Accuracy'', []), (U ''Idea Development'', []), (U ''Coherence'', []), (U ''Summary'', []), (U ''Final Evaluation'', []), (U ''AI Plagiarism'', [])], current_section = Some (U ''Task Response'')\<rparr>) (render_line (U ''Information Accuracy'', v2))
      = Inr \<lparr>parsed_data = [(U ''Task Response'', v1), (U ''Information Accuracy'', v2), (U ''Idea Development'', []), (U ''Coherence'', []), (U ''Summary'', []), (U ''Final Evaluation'', []), (U ''AI Plagiarism'', [])], current_section = Some (U ''Information Accuracy'')\<rparr>"
    by (subst parse_line_rendered [where old = "[]"])
       (simp_all add: section_keys_eq ok initial_state_def section_map_def U_simps)
  have s3: "parse_line section_map (\<lparr>parsed_data = [(U ''Task Response'', v1), (U ''Information Accuracy'', v2), (U ''Idea Development'', []), (U ''Coherence'', []), (U ''Summary'', []), (U ''Final Evaluation'', []), (U ''AI Plagiarism'', [])], current_section = Some (U ''Information Accuracy'')\<rparr>) (render_line (U ''Idea Development'', v3))
      = Inr \<lparr>parsed_data = [(U ''Task Response'', v1), (U ''Information Accuracy'', v2), (U ''Idea Development'', v3), (U ''Coherence'', []), (U ''Summary'', []), (U ''Final Evaluation'', []), (U ''AI Plagiarism'', [])], current_section = Some (U ''Idea Development'')\<rparr>"
    by (subst parse_line_rendered [where old = "[]"])
       (simp_all add: section_keys_eq ok initial_state_def section_map_def U_simps)
  have s4: "parse_line section_map (\<lparr>parsed_data = [(U ''Task Response'', v1), (U ''Information Accuracy'', v2), (U ''Idea Development'', v3), (U ''Coherence'', []), (U ''Summary'', []), (U ''Final Evaluation'', []), (U ''AI Plagiarism'', [])], current_section = Some (U ''Idea Development'')\<rparr>) (render_line (U ''Coherence'', v4))
      = Inr \<lparr>parsed_data = [(U ''Task Response'', v1), (U ''Information Accuracy'', v2), (U ''Idea Development'', v3), (U ''Coherence'', v4), (U ''Summary'', []), (U ''Final Evaluation'', []), (U ''AI Plagiarism'', [])], current_section = Some (U ''Coherence'')\<rparr>"
    by (subst parse_line_rendered [where old = "[]"])
       (simp_all add: section_keys_eq ok initial_state_def section_map_def U_simps)
  have s5: "parse_line section_map (\<lparr>parsed_data = [(U ''Task Response'', v1), (U ''Information Accuracy'', v2), (U ''Idea Development'', v3), (U ''Coherence'', v4), (U ''Summary'', []), (U ''Final Evaluation'', []), (U ''AI Plagiarism'', [])], current_section = Some (U ''Coherence'')\<rparr>) (render_line (U ''Summary'', v5))
      = Inr \<lparr>parsed_data = [(U ''Task Response'', v1), (U ''Information Accuracy'', v2), (U ''Idea Development'', v3), (U ''Coherence'', v4), (U ''Summary'', v5), (U ''Final Evaluation'', []), (U ''AI Plagiarism'', [])], current_section = Some (U ''Summary'')\<rparr>"
    by (subst parse_line_rendered [where old = "[]"])
       (simp_all add: section_keys_eq ok initial_state_def section_map_def U_simps)
  have s6: "parse_line section_map (\<lparr>parsed_data = [(U ''Task Response'', v1), (U ''Information Accuracy'', v2), (U ''Idea Development'', v3), (U ''Coherence'', v4), (U ''Summary'', v5), (U ''Final Evaluation'', []), (U ''AI Plagiarism'', [])], current_section = Some (U ''Summary'')\<rparr>) (render_line (U ''Final Evaluation'', v6))
      = Inr \<lparr>parsed_data = [(U ''Task Response'', v1), (U ''Information Accuracy'', v2), (U ''Idea Development'', v3), (U ''Coherence'', v4), (U ''Summary'', v5), (U ''Final Evaluation'', v6), (U ''AI Plagiarism'', [])], current_section = Some (U ''Final Evaluation'')\<rparr>"
    by (subst parse_line_rendered [where old = "[]"])
       (simp_all add: section_keys_eq ok initial_state_def section_map_def U_simps)
  have s7: "parse_line section_map (\<lparr>parsed_data = [(U ''Task Response'', v1), (U ''Information Accuracy'', v2), (U ''Idea Development'', v3), (U ''Coherence'', v4), (U ''Summary'', v5), (U ''Final Evaluation'', v6), (U ''AI Plagiarism'', [])], current_section = Some (U ''Final Evaluation'')\<rparr>) (render_line (U ''AI Plagiarism'', v7))
      = Inr \<lparr>parsed_data = [(U ''Task Response'', v1), (U ''Information Accuracy'', v2), (U ''Idea Development'', v3), (U ''Coherence'', v4), (U ''Summary'', v5), (U ''Final Evaluation'', v6), (U ''AI Plagiarism'', v7)], current_section = Some (U ''AI Plagiarism'')\<rparr>"
    by (subst parse_line_rendered [where old = "[]"])
       (simp_all add: section_keys_eq ok initial_state_def section_map_def U_simps)
  show ?thesis
    unfolding parse_def sp by (simp add: s1 s2 s3 s4 s5 s6 s7)
qed

text \<open>
  Claim C7. Whatever the raw text, and so for a text with one \<open>Key: value\<close> line for
  each section: rendering the map the parser returned as one \<open>Key: value\<close> line for
  each section and parsing that rendering returns the same map.
\<close>

theorem reparse_rendered_map:
  assumes "parse section_map raw = Inr d"
  shows "parse section_map (render_kv d) = Inr d"
proof -
  from parse_lines_ok [OF initial_state_ok [of section_map] py_split_no_sep [of 10 raw]]
  obtain st where st: "parse_lines section_map (initial_state section_map) (py_split 10 raw) = Inr st"
    and sok: "state_ok section_map st" by auto
  have d: "d = parsed_data st" using assms st by (simp add: parse_def)
  have keys: "map fst d = section_keys" using sok d by (simp add: state_ok_def section_keys_def)
  have vals: "\<forall>kv \<in> set d. value_ok (snd kv)" using sok d by (simp add: state_ok_def)
  have "length d = length section_keys" using keys by (metis length_map)
  then have "length (map snd d) = 7" by (simp add: section_keys_eq)
  then obtain v1 v2 v3 v4 v5 v6 v7 where vs: "map snd d = [v1, v2, v3, v4, v5, v6, v7]"
    by (rule list7)
  have "d = zip (map fst d) (map snd d)" by (simp add: zip_map_fst_snd)
  then have deq: "d = [(U ''Task Response'', v1), (U ''Information Accuracy'', v2), (U ''Idea Development'', v3), (U ''Coherence'', v4), (U ''Summary'', v5), (U ''Final Evaluation'', v6), (U ''AI Plagiarism'', v7)]"
    by (simp add: keys vs section_keys_eq)
  have "value_ok v1" "value_ok v2" "value_ok v3" "value_ok v4" "value_ok v5" "value_ok v6"
    "value_ok v7"
    using vals by (simp_all add: deq)
  then show ?thesis unfolding deq by (rule parse_rendered)
qed

lemma parse_line_blank: "py_strip line = [] \<Longrightarrow> parse_line smap st line = Inr st"
  by (simp add: parse_line_def)

lemma parse_example:
  "parse section_map
     (U ''Task Response: Good job.'' @ [10] @ U ''Information Accuracy: Mostly correct.'' @ [10])
   = Inr [(U ''Task Response'', U ''Good job. ''),
          (U ''Information Accuracy'', U ''Mostly correct. ''),
          (U ''Idea Development'', []), (U ''Coherence'', []), (U ''Summary'', []),
          (U ''Final Evaluation'', []), (U ''AI Plagiarism'', [])]"
proof -
  let ?st1 = "\<lparr>parsed_data = [(U ''Task Response'', U ''Good job. ''),
          (U ''Information Accuracy'', []),
          (U ''Idea Development'', []), (U ''Coherence'', []), (U ''Summary'', []),
          (U ''Final Evaluation'', []), (U ''AI Plagiarism'', [])],
        current_section = Some (U ''Task Response'')\<rparr>"
  let ?st2 = "\<lparr>parsed_data = [(U ''Task Response'', U ''Good job. ''),
          (U ''Information Accuracy'', U ''Mostly correct. ''),
          (U ''Idea Development'', []), (U ''Coherence'', []), (U ''Summary'', []),
          (U ''Final Evaluation'', []), (U ''AI Plagiarism'', [])],
        current_section = Some (U ''Information Accuracy'')\<rparr>"
  have sp: "py_split 10 (U ''Task Response: Good job.'' @ [10] @ U ''Information Accuracy: Mostly correct.'' @ [10])
      = [U ''Task Response: Good job.'', U ''Information Accuracy: Mostly correct.'', []]"
    by (simp add: U_simps Let_def)
  have c1: "py_strip (U ''Task Response: Good job.'') = U ''Task Response'' @ 58 # U '' Good job.''"
    by (simp add: U_simps py_strip_def isspace_def)
  have c2: "py_strip (U ''Information Accuracy: Mostly correct.'')
              = U ''Information Accuracy'' @ 58 # U '' Mostly correct.''"
    by (simp add: U_simps py_strip_def isspace_def)
  have w1: "py_strip (U '' Good job.'') = U ''Good job.''"
    by (simp add: U_simps py_strip_def isspace_def)
  have w2: "py_strip (U '' Mostly correct.'') = U ''Mostly correct.''"
    by (simp add: U_simps py_strip_def isspace_def)
  have k1: "U ''Task Response'' \<in> set section_keys" and k2: "U ''Information Accuracy'' \<in> set section_keys"
    by (simp_all add: section_keys_eq)
  have s1: "parse_line section_map (initial_state section_map) (U ''Task Response: Good job.'') = Inr ?st1"
    unfolding parse_line_key [OF k1 c1] open_section_key [OF section_key_props(1) [OF k1]] w1
    by (simp add: initial_state_def section_map_def dict_append_def U_simps)
  have s2: "parse_line section_map ?st1 (U ''Information Accuracy: Mostly correct.'') = Inr ?st2"
    unfolding parse_line_key [OF k2 c2] open_section_key [OF section_key_props(1) [OF k2]] w2
    by (simp add: dict_append_def U_simps)
  show ?thesis
    unfolding parse_def sp by (simp add: s1 s2 parse_line_blank)
qed

text \<open>
  Claim C5. The two labeled lines parse to \<open>Good job. \<close> and \<open>Mostly correct. \<close>,
  each with its trailing space, and every other section is the empty string.
\<close>

theorem parse_two_labeled_lines:
  "parse section_map
     (U ''Task Response: Good job.'' @ [10] @ U ''Information Accuracy: Mostly correct.'' @ [10])
   = Inr [(U ''Task Response'', U ''Good job. ''),
          (U ''Information Accuracy'', U ''Mostly correct. ''),
          (U ''Idea Development'', []), (U ''Coherence'', []), (U ''Summary'', []),
          (U ''Final Evaluation'', []), (U ''AI Plagiarism'', [])]"
  by (rule parse_example)

theorem reparse_rendered_map_witness:
  "parse section_map
     (U ''Task Response: Good job.'' @ [10] @ U ''Information Accuracy: Mostly correct.'' @ [10])
   = Inr [(U ''Task Response'', U ''Good job. ''),
          (U ''Information Accuracy'', U ''Mostly correct. ''),
          (U ''Idea Development'', []), (U ''Coherence'', []), (U ''Summary'', []),
          (U ''Final Evaluation'', []), (U ''AI Plagiarism'', [])]
   \<and> parse section_map (render_kv [(U ''Task Response'', U ''Good job. ''),
          (U ''Information Accuracy'', U ''Mostly correct. ''),
          (U ''Idea Development'', []), (U ''Coherence'', []), (U ''Summary'', []),
          (U ''Final Evaluation'', []), (U ''AI Plagiarism'', [])])
     = Inr [(U ''Task Response'', U ''Good job. ''),
          (U ''Information Accuracy'', U ''Mostly correct. ''),
          (U ''Idea Development'', []), (U ''Coherence'', []), (U ''Summary'', []),
          (U ''Final Evaluation'', []), (U ''AI Plagiarism'', [])]"
  using parse_example reparse_rendered_map [OF parse_example] by (rule conjI)

lemma prefix_sum_example:
  "scan_sections [(U ''A'', [U ''Sum'']), (U ''B'', [U ''Summary''])] (U ''Summary: x'')
     (initial_state [(U ''A'', [U ''Sum'']), (U ''B'', [U ''Summary''])])
   = Inr (\<lparr>parsed_data = [(U ''A'', U ''x ''), (U ''B'', [])], current_section = Some (U ''A'')\<rparr>, True)"
  by (simp add: norm_line_def py_replace_def py_strip_def isspace_def str_lower_Cons str_lower_Nil
      lower_ascii open_section_def split_once_def item_def dict_append_def initial_state_def
      U_simps Let_def)

text \<open>
  With the two sections \<open>A\<close> (keyword \<open>Sum\<close>) and \<open>B\<close> (keyword \<open>Summary\<close>), the
  line \<open>Summary: x\<close> opens \<open>A\<close>.
\<close>

theorem section_opening_first_match_witness:
  "scan_sections [(U ''A'', [U ''Sum'']), (U ''B'', [U ''Summary''])] (U ''Summary: x'')
     (initial_state [(U ''A'', [U ''Sum'']), (U ''B'', [U ''Summary''])])
   = Inr (\<lparr>parsed_data = [(U ''A'', U ''x ''), (U ''B'', [])], current_section = Some (U ''A'')\<rparr>, True)
   \<and> first_section [(U ''A'', [U ''Sum'']), (U ''B'', [U ''Summary''])] (norm_line (U ''Summary: x''))
       = Some (U ''A'')"
proof -
  note t = section_opening_first_match [OF prefix_sum_example]
  have "first_section [(U ''A'', [U ''Sum'']), (U ''B'', [U ''Summary''])] (norm_line (U ''Summary: x''))
       = Some (U ''A'')"
    using t [THEN conjunct1] t [THEN conjunct2, THEN conjunct1]
    by (cases "first_section [(U ''A'', [U ''Sum'']), (U ''B'', [U ''Summary''])] (norm_line (U ''Summary: x''))")
       simp_all
  with prefix_sum_example show ?thesis by (rule conjI)
qed

lemma preamble_no_section:
  "first_section section_map (norm_line (py_strip (U ''stray preamble''))) = None"
proof -
  have "norm_line (py_strip (U ''stray preamble'')) = U ''stray preamble''"
    by (simp add: norm_line_def py_replace_def py_strip_def isspace_def str_lower_Cons
        str_lower_Nil lower_ascii U_simps)
  then show ?thesis
    by (simp add: first_section_def section_map_def U_simps str_lower_Cons str_lower_Nil
        lower_cp_def lower_irregular_def)
qed

text \<open>
  The example of the specification: \<open>stray preamble\<close> is dropped.
\<close>

theorem parser_total_and_drops_preamble_witness:
  "py_split 10 (U ''stray preamble'' @ [10] @ U ''Task Response: x'')
     = [U ''stray preamble''] @ [U ''Task Response: x'']
   \<and> first_section section_map (norm_line (py_strip (U ''stray preamble''))) = None
   \<and> parse section_map (U ''stray preamble'' @ [10] @ U ''Task Response: x'')
       = Inr [(U ''Task Response'', U ''x ''), (U ''Information Accuracy'', []),
              (U ''Idea Development'', []), (U ''Coherence'', []), (U ''Summary'', []),
              (U ''Final Evaluation'', []), (U ''AI Plagiarism'', [])]"
proof -
  have sp: "py_split 10 (U ''stray preamble'' @ [10] @ U ''Task Response: x'')
     = [U ''stray preamble''] @ [U ''Task Response: x'']"
    by (simp add: U_simps Let_def)
  have dr: "\<forall>l \<in> set [U ''stray preamble''].
         py_strip l = [] \<or> first_section section_map (norm_line (py_strip l)) = None"
    by (simp add: preamble_no_section)
  have k1: "U ''Task Response'' \<in> set section_keys" by (simp add: section_keys_eq)
  have c1: "py_strip (U ''Task Response: x'') = U ''Task Response'' @ 58 # U '' x''"
    by (simp add: U_simps py_strip_def isspace_def)
  have w1: "py_strip (U '' x'') = U ''x''"
    by (simp add: U_simps py_strip_def isspace_def)
  have s1: "parse_line section_map (initial_state section_map) (U ''Task Response: x'')
      = Inr \<lparr>parsed_data = [(U ''Task Response'', U ''x ''), (U ''Information Accuracy'', []),
              (U ''Idea Development'', []), (U ''Coherence'', []), (U ''Summary'', []),
              (U ''Final Evaluation'', []), (U ''AI Plagiarism'', [])],
            current_section = Some (U ''Task Response'')\<rparr>"
    unfolding parse_line_key [OF k1 c1] open_section_key [OF section_key_props(1) [OF k1]] w1
    by (simp add: initial_state_def section_map_def dict_append_def U_simps)
  have "parse section_map (U ''stray preamble'' @ [10] @ U ''Task Response: x'')
      = and_then (parse_lines section_map (initial_state section_map) [U ''Task Response: x''])
          (\<lambda>st. Inr (parsed_data st))"
    using parser_total_and_drops_preamble
      [of section_map "U ''stray preamble'' @ [10] @ U ''Task Response: x''", THEN conjunct2,
       rule_format, of "[U ''stray preamble'']" "[U ''Task Response: x'']"]
      sp dr by blast
  then have "parse section_map (U ''stray preamble'' @ [10] @ U ''Task Response: x'')
       = Inr [(U ''Task Response'', U ''x ''), (U ''Information Accuracy'', []),
              (U ''Idea Development'', []), (U ''Coherence'', []), (U ''Summary'', []),
              (U ''Final Evaluation'', []), (U ''AI Plagiarism'', [])]"
    by (simp add: s1)
  with sp preamble_no_section show ?thesis by blast
qed

section \<open>Properties of the grammar client\<close>

lemma map_exn_Inr_iff: "(map_exn f xs = Inr ys) = (map f xs = map Inr ys)"
proof (induction xs arbitrary: ys)
  case Nil
  then show ?case by auto
next
  case (Cons x xs)
  show ?case
  proof (cases "f x")
    case (Inl e)
    then show ?thesis by (cases ys) auto
  next
    case (Inr y)
    show ?thesis
    proof (cases "map_exn f xs")
      case (Inl e)
      then have "\<And>zs. map f xs \<noteq> map Inr zs" using Cons.IH by simp
      then show ?thesis using Inr Inl by (cases ys) auto
    next
      case r: (Inr zs)
      then have "map f xs = map Inr zs" using Cons.IH by simp
      then show ?thesis using Inr r by (cases ys) (auto simp: inj_map_eq_map)
    qed
  qed
qed

lemma map_exn_Inl:
  "x \<in> set xs \<Longrightarrow> f x = Inl e \<Longrightarrow> \<exists>e'. map_exn f xs = Inl e'"
proof (induction xs)
  case Nil
  then show ?case by simp
next
  case (Cons a xs)
  show ?case
  proof (cases "f a")
    case (Inl e1)
    then show ?thesis by simp
  next
    case (Inr y)
    show ?thesis
    proof (cases "a = x")
      case True
      then show ?thesis using Cons.prems Inr by simp
    next
      case False
      then have "\<exists>e'. map_exn f xs = Inl e'" using Cons by simp
      then show ?thesis using Inr by auto
    qed
  qed
qed

lemma map_exn_set:
  assumes "map_exn f xs = Inr ys" "y \<in> set ys"
  shows "\<exists>x \<in> set xs. f x = Inr y"
proof -
  have m: "map f xs = map Inr ys" using assms(1) by (simp add: map_exn_Inr_iff)
  from assms(2) obtain i where i: "i < length ys" "ys ! i = y" by (auto simp: in_set_conv_nth)
  have len: "length xs = length ys" using m by (metis length_map)
  have "f (xs ! i) = Inr y" using m i len by (metis nth_map)
  then show ?thesis using i len by (metis nth_mem)
qed

lemma slice_text_Inr:
  "slice_text text off len = Inr bad \<Longrightarrow>
   \<exists>a b. as_int off = Some a \<and> as_int len = Some b \<and> bad = py_slice text a (a + b)"
  by (auto simp: slice_text_def split: option.splits)

lemma error_of_match_Inr:
  assumes "error_of_match text m = Inr e"
  shows "\<exists>rs vals off len.
           and_then (py_get m (U ''replacements'') (JArr [])) py_iter = Inr rs
         \<and> map (\<lambda>r. py_getitem r (U ''value'')) rs = map Inr vals
         \<and> replacements e = take 3 vals
         \<and> py_getitem m (U ''offset'') = Inr off \<and> as_int off = Some (offset e)
         \<and> py_getitem m (U ''length'') = Inr len \<and> as_int len = Some (length_e e)
         \<and> bad_word e = py_slice text (offset e) (offset e + length_e e)"
proof -
  from assms obtain rs0 rs vals off len bad where
    a: "py_get m (U ''replacements'') (JArr []) = Inr rs0" "py_iter rs0 = Inr rs"
      "map_exn (\<lambda>r. py_getitem r (U ''value'')) rs = Inr vals"
      "py_getitem m (U ''offset'') = Inr off" "py_getitem m (U ''length'') = Inr len"
      "slice_text text off len = Inr bad"
    and e: "e = \<lparr>offset = the (as_int off), length_e = the (as_int len),
            replacements = take 3 vals, bad_word = bad\<rparr>"
    by (auto simp: error_of_match_def and_then_Inr_iff Let_def)
  from slice_text_Inr [OF a(6)] obtain x y where
    xy: "as_int off = Some x" "as_int len = Some y" "bad = py_slice text x (x + y)" by auto
  have "and_then (py_get m (U ''replacements'') (JArr [])) py_iter = Inr rs" using a(1,2) by simp
  moreover have "map (\<lambda>r. py_getitem r (U ''value'')) rs = map Inr vals"
    using a(3) by (simp add: map_exn_Inr_iff)
  ultimately show ?thesis using a(4,5) e xy by auto
qed

lemma check_text_try_Inr:
  assumes "check_text_try text outcome = Inr errors"
  shows "\<exists>status result ms. outcome = Response status (Some result)
           \<and> \<not> (400 \<le> status \<and> status < 600)
           \<and> and_then (py_get result (U ''matches'') (JArr [])) py_iter = Inr ms
           \<and> map_exn (error_of_match text) ms = Inr errors"
proof (cases outcome)
  case NetworkFailure
  with assms show ?thesis by (simp add: check_text_try_def post_def)
next
  case TimedOut
  with assms show ?thesis by (simp add: check_text_try_def post_def)
next
  case (Response status body)
  with assms show ?thesis
    by (auto simp: check_text_try_def post_def raise_for_status_def response_json_def
        and_then_Inr_iff split: if_splits option.splits)
qed

lemma check_text_total: "\<exists>errors. check_text text outcome = Inr errors"
  by (cases "check_text_try text outcome") (simp_all add: check_text_def)

lemma check_text_Inl: "check_text_try text outcome = Inl e \<Longrightarrow> check_text text outcome = Inr []"
  by (simp add: check_text_def)

lemma check_text_status:
  "400 \<le> status \<Longrightarrow> status < 600 \<Longrightarrow> check_text text (Response status body) = Inr []"
  by (simp add: check_text_def check_text_try_def post_def raise_for_status_def)

lemma check_text_not_json: "check_text text (Response status None) = Inr []"
  by (simp add: check_text_def check_text_try_def post_def raise_for_status_def response_json_def)

lemma check_text_not_object:
  assumes "\<forall>kvs. result \<noteq> JObj kvs"
  shows "check_text text (Response status (Some result)) = Inr []"
proof -
  have "py_get result (U ''matches'') (JArr []) = Inl AttributeError"
    using assms by (cases result) simp_all
  then show ?thesis
    by (simp add: check_text_def check_text_try_def post_def raise_for_status_def response_json_def)
qed

lemma check_text_bad_match:
  assumes "m \<in> set ms" and "error_of_match text m = Inl e"
  shows "check_text text (Response status (Some (JObj [(U ''matches'', JArr ms)]))) = Inr []"
proof -
  from map_exn_Inl [of m ms "error_of_match text" e] assms obtain e' where "map_exn (error_of_match text) ms = Inl e'" by auto
  then show ?thesis
    by (simp add: check_text_def check_text_try_def post_def raise_for_status_def response_json_def)
qed

text \<open>
  Claim C4, as the code has it. The call never raises: it always returns a list. It
  returns the empty list whenever anything inside the \<open>try\<close> block raises: a network
  error, a timeout, a status from 400 to 599 (the statuses \<open>raise_for_status\<close>
  rejects), a body that is not JSON, a payload that is not an object, and a payload one
  of whose matches cannot be read (a key is missing, a value has the wrong type).
\<close>

theorem check_text_fails_open:
  "(\<exists>errors. check_text text outcome = Inr errors)
   \<and> (\<forall>e. check_text_try text outcome = Inl e \<longrightarrow> check_text text outcome = Inr [])
   \<and> check_text text NetworkFailure = Inr []
   \<and> check_text text TimedOut = Inr []
   \<and> (400 \<le> status \<and> status < 600 \<longrightarrow> check_text text (Response status body) = Inr [])
   \<and> check_text text (Response status None) = Inr []
   \<and> ((\<forall>kvs. result \<noteq> JObj kvs) \<longrightarrow> check_text text (Response status (Some result)) = Inr [])
   \<and> (m \<in> set ms \<and> (\<exists>e. error_of_match text m = Inl e)
        \<longrightarrow> check_text text (Response status (Some (JObj [(U ''matches'', JArr ms)]))) = Inr [])"
proof -
  have 1: "\<exists>errors. check_text text outcome = Inr errors" by (rule check_text_total)
  have 2: "\<forall>e. check_text_try text outcome = Inl e \<longrightarrow> check_text text outcome = Inr []"
    by (simp add: check_text_Inl)
  have 3: "check_text text NetworkFailure = Inr []" "check_text text TimedOut = Inr []"
    by (simp_all add: check_text_def check_text_try_def post_def)
  have 4: "400 \<le> status \<and> status < 600 \<longrightarrow> check_text text (Response status body) = Inr []"
    by (simp add: check_text_status)
  have 5: "check_text text (Response status None) = Inr []" by (rule check_text_not_json)
  have 6: "(\<forall>kvs. result \<noteq> JObj kvs) \<longrightarrow> check_text text (Response status (Some result)) = Inr []"
    using check_text_not_object by blast
  have 7: "m \<in> set ms \<and> (\<exists>e. error_of_match text m = Inl e)
        \<longrightarrow> check_text text (Response status (Some (JObj [(U ''matches'', JArr ms)]))) = Inr []"
    using check_text_bad_match by blast
  show ?thesis using 1 2 3 4 5 6 7 by blast
qed

lemma good_response_example:
  "check_text (U ''a'')
     (Response 300 (Some (JObj [(U ''matches'', JArr [JObj [(U ''offset'', JInt 0), (U ''length'', JInt 1)]])])))
   = Inr [\<lparr>offset = 0, length_e = 1, replacements = [], bad_word = U ''a''\<rparr>]"
  by (simp add: check_text_def check_text_try_def post_def raise_for_status_def response_json_def
      error_of_match_def slice_text_def py_slice_def slice_index_def U_simps Let_def)

lemma bad_match_example:
  "error_of_match (U ''a'') (JObj [(U ''offset'', JInt 0)]) = Inl KeyError"
  by (simp add: error_of_match_def U_simps Let_def)

text \<open>
  Claim C4 as stated fails for a status outside 200..299 that \<open>raise_for_status\<close>
  lets through: a response with status 300 and a well-formed body is read like a
  successful one, and its match is returned.
\<close>

theorem check_text_status_300_not_empty:
  "\<not> (200 \<le> (300::nat) \<and> (300::nat) < 300)
   \<and> check_text (U ''a'')
     (Response 300 (Some (JObj [(U ''matches'', JArr [JObj [(U ''offset'', JInt 0), (U ''length'', JInt 1)]])])))
   = Inr [\<lparr>offset = 0, length_e = 1, replacements = [], bad_word = U ''a''\<rparr>]"
  using good_response_example by simp

text \<open>
  Status 503, a payload that is a list, and a match without \<open>length\<close>.
\<close>

theorem check_text_fails_open_witness:
  "check_text (U ''a'')
     (Response 503 (Some (JObj [(U ''matches'', JArr [JObj [(U ''offset'', JInt 0), (U ''length'', JInt 1)]])])))
     = Inr []
   \<and> check_text (U ''a'') (Response 200 (Some (JArr []))) = Inr []
   \<and> error_of_match (U ''a'') (JObj [(U ''offset'', JInt 0)]) = Inl KeyError
   \<and> check_text (U ''a'') (Response 200 (Some (JObj [(U ''matches'', JArr [JObj [(U ''offset'', JInt 0)]])])))
     = Inr []"
proof -
  note t = check_text_fails_open [of "U ''a''" NetworkFailure 503
      "Some (JObj [(U ''matches'', JArr [JObj [(U ''offset'', JInt 0), (U ''length'', JInt 1)]])])"
      "JArr []" "JObj [(U ''offset'', JInt 0)]" "[JObj [(U ''offset'', JInt 0)]]"]
  note u = check_text_fails_open [of "U ''a''" NetworkFailure 200 None
      "JArr []" "JObj [(U ''offset'', JInt 0)]" "[JObj [(U ''offset'', JInt 0)]]"]
  have a: "check_text (U ''a'')
     (Response 503 (Some (JObj [(U ''matches'', JArr [JObj [(U ''offset'', JInt 0), (U ''length'', JInt 1)]])])))
     = Inr []" using t by simp
  have b: "check_text (U ''a'') (Response 200 (Some (JArr []))) = Inr []" using u by simp
  have c: "check_text (U ''a'') (Response 200 (Some (JObj [(U ''matches'', JArr [JObj [(U ''offset'', JInt 0)]])])))
     = Inr []" using u bad_match_example by simp
  show ?thesis using a b c bad_match_example by blast
qed

text \<open>
  Claim C10, as the code has it. Every record returned comes from one match of the
  response: its replacements are the first three \<open>value\<close>s of the match's
  replacements, in the backend's order; its offset and length are the match's; its
  matched text is the Python slice \<open>text[offset : offset + length]\<close>, which clamps its
  bounds to the text. The client does not compare offset and length with the length of
  the text: where they lie within the text, the matched text is the substring at
  [offset, offset + length) and has that length.
\<close>

theorem check_text_record_shape:
  assumes "check_text text outcome = Inr errors" and "e \<in> set errors"
  shows "\<exists>status result ms m rs vals off len.
           outcome = Response status (Some result)
         \<and> and_then (py_get result (U ''matches'') (JArr [])) py_iter = Inr ms
         \<and> m \<in> set ms
         \<and> and_then (py_get m (U ''replacements'') (JArr [])) py_iter = Inr rs
         \<and> map (\<lambda>r. py_getitem r (U ''value'')) rs = map Inr vals
         \<and> replacements e = take 3 vals
         \<and> length (replacements e) \<le> 3
         \<and> py_getitem m (U ''offset'') = Inr off \<and> as_int off = Some (offset e)
         \<and> py_getitem m (U ''length'') = Inr len \<and> as_int len = Some (length_e e)
         \<and> bad_word e = py_slice text (offset e) (offset e + length_e e)
         \<and> (0 \<le> offset e \<and> 0 \<le> length_e e \<and> offset e + length_e e \<le> int (length text)
              \<longrightarrow> bad_word e = take (nat (length_e e)) (drop (nat (offset e)) text)
                  \<and> length (bad_word e) = nat (length_e e))"
proof -
  have tr: "check_text_try text outcome = Inr errors"
  proof (cases "check_text_try text outcome")
    case (Inl x)
    then have "errors = []" using assms(1) by (simp add: check_text_def)
    then show ?thesis using assms(2) by simp
  next
    case (Inr es)
    then show ?thesis using assms(1) by (simp add: check_text_def)
  qed
  from check_text_try_Inr [OF tr] obtain status result ms where
    o: "outcome = Response status (Some result)"
    and ms: "and_then (py_get result (U ''matches'') (JArr [])) py_iter = Inr ms"
    and me: "map_exn (error_of_match text) ms = Inr errors" by auto
  from map_exn_set [OF me assms(2)] obtain m where m: "m \<in> set ms" "error_of_match text m = Inr e"
    by auto
  from error_of_match_Inr [OF m(2)] obtain rs vals off len where
    r: "and_then (py_get m (U ''replacements'') (JArr [])) py_iter = Inr rs"
      "map (\<lambda>r. py_getitem r (U ''value'')) rs = map Inr vals"
      "replacements e = take 3 vals"
      "py_getitem m (U ''offset'') = Inr off" "as_int off = Some (offset e)"
      "py_getitem m (U ''length'') = Inr len" "as_int len = Some (length_e e)"
      "bad_word e = py_slice text (offset e) (offset e + length_e e)"
    by auto
  have l3: "length (replacements e) \<le> 3" using r(3) by simp
  have ib: "0 \<le> offset e \<and> 0 \<le> length_e e \<and> offset e + length_e e \<le> int (length text)
              \<longrightarrow> bad_word e = take (nat (length_e e)) (drop (nat (offset e)) text)
                  \<and> length (bad_word e) = nat (length_e e)"
  proof
    assume b: "0 \<le> offset e \<and> 0 \<le> length_e e \<and> offset e + length_e e \<le> int (length text)"
    then have eq: "bad_word e = take (nat (length_e e)) (drop (nat (offset e)) text)"
      using r(8) by (simp add: py_slice_in_bounds)
    have "nat (length_e e) \<le> length text - nat (offset e)" using b by linarith
    then show "bad_word e = take (nat (length_e e)) (drop (nat (offset e)) text)
                  \<and> length (bad_word e) = nat (length_e e)"
      using eq by simp
  qed
  show ?thesis using o ms m(1) r l3 ib by blast
qed

lemma four_replacements_example:
  "check_text (U ''hello'')
     (Response 200 (Some (JObj [(U ''matches'', JArr [JObj [(U ''offset'', JInt 1), (U ''length'', JInt 2),
        (U ''replacements'', JArr [JObj [(U ''value'', JStr (U ''a''))], JObj [(U ''value'', JStr (U ''b''))],
           JObj [(U ''value'', JStr (U ''c''))], JObj [(U ''value'', JStr (U ''d''))]])]])])))
   = Inr [\<lparr>offset = 1, length_e = 2, replacements = [JStr (U ''a''), JStr (U ''b''), JStr (U ''c'')],
           bad_word = U ''el''\<rparr>]"
  by (simp add: check_text_def check_text_try_def post_def raise_for_status_def response_json_def
      error_of_match_def slice_text_def py_slice_def slice_index_def U_simps Let_def)

text \<open>
  A match with four replacements at offset 1, length 2 in \<open>hello\<close>.
\<close>

theorem check_text_record_shape_witness:
  "check_text (U ''hello'')
     (Response 200 (Some (JObj [(U ''matches'', JArr [JObj [(U ''offset'', JInt 1), (U ''length'', JInt 2),
        (U ''replacements'', JArr [JObj [(U ''value'', JStr (U ''a''))], JObj [(U ''value'', JStr (U ''b''))],
           JObj [(U ''value'', JStr (U ''c''))], JObj [(U ''value'', JStr (U ''d''))]])]])])))
   = Inr [\<lparr>offset = 1, length_e = 2, replacements = [JStr (U ''a''), JStr (U ''b''), JStr (U ''c'')],
           bad_word = U ''el''\<rparr>]
   \<and> U ''el'' = take (nat 2) (drop (nat 1) (U ''hello''))"
proof -
  let ?e = "\<lparr>offset = 1, length_e = 2, replacements = [JStr (U ''a''), JStr (U ''b''), JStr (U ''c'')],
           bad_word = U ''el''\<rparr>"
  have "?e \<in> set [?e]" by simp
  from check_text_record_shape [OF four_replacements_example this]
  have "0 \<le> offset ?e \<and> 0 \<le> length_e ?e \<and> offset ?e + length_e ?e \<le> int (length (U ''hello''))
          \<longrightarrow> bad_word ?e = take (nat (length_e ?e)) (drop (nat (offset ?e)) (U ''hello''))"
    by blast
  then have "U ''el'' = take (nat 2) (drop (nat 1) (U ''hello''))" by (simp add: U_simps)
  with four_replacements_example show ?thesis by (rule conjI)
qed

text \<open>
  Claim C10 as stated fails: for the text \<open>a\<close> and a well-formed response whose match
  has offset 5 and length 3 the client returns the record with that offset and length,
  beyond the end of the text, and the empty matched text.
\<close>

theorem check_text_span_beyond_text:
  "check_text (U ''a'')
     (Response 200 (Some (JObj [(U ''matches'', JArr [JObj [(U ''offset'', JInt 5), (U ''length'', JInt 3)]])])))
   = Inr [\<lparr>offset = 5, length_e = 3, replacements = [], bad_word = []\<rparr>]
   \<and> \<not> (5 + 3 \<le> int (length (U ''a'')))"
  by (simp add: check_text_def check_text_try_def post_def raise_for_status_def response_json_def
      error_of_match_def slice_text_def py_slice_def slice_index_def U_simps Let_def)

end
